theory Spec2Isabelle
  imports Complex_Main "HOL-Library.Word" "HOL-Library.Log_Nat"
begin

section \<open>The book repository of htmx-fiber (main.go)\<close>

text \<open>
  The development follows main.go: the record types, the query texts that the SQLite
  repository builds, the store those texts are executed against, the repository
  operations, and the pagination computation of the list handler.
\<close>

subsection \<open>Record types\<close>

text \<open>
  Go's \<open>int\<close> is 64 bits wide on the platforms the program is built for. Identifiers,
  limits, offsets and counts are only stored, compared and counted by the repository,
  never computed with, so they are kept as \<open>int\<close>. The page arithmetic of the list
  handler adds, subtracts and compares, so there a Go \<open>int\<close> is a 64-bit word read as
  two's complement.
\<close>

type_synonym go_int = "64 word"

record Book =
  ID :: int
  Title :: string
  HasSales :: bool

record PaginatedBooks =
  Books :: "Book list"
  TotalCount :: int

record Pagination =
  CurrentPage :: go_int
  TotalPages :: go_int
  HasPrev :: bool
  HasNext :: bool
  PrevPage :: go_int
  NextPage :: go_int

subsection \<open>Pagination computation of the list handler\<close>

text \<open>
  \<^verbatim>\<open>totalPages := int(math.Ceil(float64(result.TotalCount) / float64(pageSize)))\<close>

  A \<open>float64\<close> is an IEEE 754 binary64 number. A finite one is \<open>Finite m e\<close>, the
  number \<open>m * 2^e\<close>; the others are the two infinities and not-a-number. Conversion
  and division round to the nearest number with a 53-bit significand, ties to the even
  significand. The exponent range of binary64 is left out: every value here is a
  64-bit integer or the quotient of two, far inside it.
\<close>

datatype f64 = Finite int int | Inf bool | NaN

text \<open>The integer nearest to \<open>n / d\<close> for \<open>d > 0\<close>, ties to the even integer.\<close>

definition round_half_even :: "int \<Rightarrow> int \<Rightarrow> int" where
  "round_half_even n d =
     (let q = n div d; r = n mod d
      in if 2 * r < d then q else if d < 2 * r then q + 1 else if even q then q else q + 1)"

text \<open>The exponent \<open>E\<close> with \<open>2^E \<le> n / d < 2^(E + 1)\<close>, for \<open>n > 0\<close> and \<open>d > 0\<close>.\<close>

definition floor_log2 :: "int \<Rightarrow> int \<Rightarrow> int" where
  "floor_log2 n d =
     (let k = bitlen n - bitlen d
      in if n * 2 ^ nat (- k) < d * 2 ^ nat k then k - 1 else k)"

text \<open>
  The \<open>float64\<close> nearest to \<open>n / d\<close>, for \<open>d > 0\<close>: the quotient is scaled to a
  significand between \<open>2^52\<close> and \<open>2^53\<close>, and that is rounded.
\<close>

definition round64 :: "int \<Rightarrow> int \<Rightarrow> f64" where
  "round64 n d =
     (if n = 0 then Finite 0 0
      else
        let e = floor_log2 \<bar>n\<bar> d - 52;
            s = round_half_even (\<bar>n\<bar> * 2 ^ nat (- e)) (d * 2 ^ nat e)
        in Finite (sgn n * s) e)"

text \<open>The conversion \<^verbatim>\<open>float64(n)\<close> of an \<open>int\<close>.\<close>

definition float64 :: "go_int \<Rightarrow> f64" where
  "float64 n = round64 (sint n) 1"

text \<open>
  The division \<^verbatim>\<open>x / y\<close> of two \<open>float64\<close>. Dividing by zero gives an infinity,
  or not-a-number for \<open>0 / 0\<close>; Go does not panic on it.
\<close>

fun fdiv :: "f64 \<Rightarrow> f64 \<Rightarrow> f64" where
  "fdiv NaN y = NaN"
| "fdiv x NaN = NaN"
| "fdiv (Inf a) (Inf b) = NaN"
| "fdiv (Inf a) (Finite m e) = Inf (a = (0 \<le> m))"
| "fdiv (Finite m e) (Inf b) = Finite 0 0"
| "fdiv (Finite m1 e1) (Finite m2 e2) =
     (if m2 = 0 then (if m1 = 0 then NaN else Inf (0 < m1))
      else round64 (sgn m2 * m1 * 2 ^ nat (e1 - e2)) (\<bar>m2\<bar> * 2 ^ nat (e2 - e1)))"

text \<open>\<^verbatim>\<open>math.Ceil\<close>: the least integer not below the number, itself a \<open>float64\<close>.\<close>

fun Ceil :: "f64 \<Rightarrow> f64" where
  "Ceil (Finite m e) = (if 0 \<le> e then Finite m e else Finite (- ((- m) div 2 ^ nat (- e))) 0)"
| "Ceil x = x"

text \<open>
  The conversion \<^verbatim>\<open>int(x)\<close> drops the fraction. For a number outside the range of
  \<open>int\<close>, an infinity or not-a-number, Go leaves the result to the implementation; it
  is the smallest \<open>int\<close> here, as on amd64.
\<close>

fun int_of_float64 :: "f64 \<Rightarrow> go_int" where
  "int_of_float64 (Finite m e) =
     (let t = (if 0 \<le> e then m * 2 ^ nat e else sgn m * (\<bar>m\<bar> div 2 ^ nat (- e)))
      in if - (2 ^ 63) \<le> t \<and> t < 2 ^ 63 then word_of_int t else word_of_int (- (2 ^ 63)))"
| "int_of_float64 x = word_of_int (- (2 ^ 63))"

definition totalPages :: "go_int \<Rightarrow> go_int \<Rightarrow> go_int" where
  "totalPages totalCount pageSize =
     int_of_float64 (Ceil (fdiv (float64 totalCount) (float64 pageSize)))"

text \<open>The number a finite \<open>float64\<close> stands for.\<close>

fun valof :: "f64 \<Rightarrow> real" where
  "valof (Finite m e) = real_of_int m * 2 powi e"
| "valof x = 0"

text \<open>
  The \<open>Pagination\<close> literal of the handler, for a page size, a total count and the page
  number (the handler has already raised a page below 1 to 1).
\<close>

definition pagination :: "go_int \<Rightarrow> go_int \<Rightarrow> go_int \<Rightarrow> Pagination" where
  "pagination pageSize totalCount page =
     \<lparr>CurrentPage = page,
      TotalPages = totalPages totalCount pageSize,
      HasPrev = (1 <s page),
      HasNext = (page <s totalPages totalCount pageSize),
      PrevPage = page - 1,
      NextPage = page + 1\<rparr>"

text \<open>\<^verbatim>\<open>const pageSize = 5\<close> in the handler.\<close>

definition pageSize :: go_int where
  "pageSize = 5"

subsection \<open>Strings\<close>

text \<open>\<^verbatim>\<open>strings.Repeat\<close> and \<^verbatim>\<open>strings.Join\<close> of Go's standard library.\<close>

definition Repeat :: "string \<Rightarrow> nat \<Rightarrow> string" where
  "Repeat s n = concat (replicate n s)"

fun Join :: "string list \<Rightarrow> string \<Rightarrow> string" where
  "Join [] sep = []"
| "Join [x] sep = x"
| "Join (x # y # xs) sep = x @ sep @ Join (y # xs) sep"

subsection \<open>Statements and their parameters\<close>

text \<open>
  A value bound to a \<open>?\<close> placeholder: the repository binds Go \<open>int\<close>, \<open>string\<close> and
  \<open>bool\<close> values.
\<close>

datatype sqlval = VInt int | VText string | VBool bool

text \<open>
  The \<open>WHERE\<close> clause of \<^verbatim>\<open>ListBooks\<close> (step 1 of the function): the clauses, their
  arguments, and the clause text shared by the two queries.
\<close>

definition whereClauses :: "string \<Rightarrow> string \<Rightarrow> string list" where
  "whereClauses search filter_tok =
     (if search \<noteq> [] then [''title LIKE ?''] else [])
     @ (if filter_tok = ''on_sale'' then [''has_sales = 1'']
        else if filter_tok = ''not_on_sale'' then [''has_sales = 0'']
        else [])"

definition whereArgs :: "string \<Rightarrow> sqlval list" where
  "whereArgs search = (if search \<noteq> [] then [VText (''%'' @ search @ ''%'')] else [])"

definition whereStr :: "string \<Rightarrow> string \<Rightarrow> string" where
  "whereStr search filter_tok =
     (if length (whereClauses search filter_tok) > 0
      then '' WHERE '' @ Join (whereClauses search filter_tok) '' AND ''
      else [])"

definition countQuery :: "string \<Rightarrow> string \<Rightarrow> string" where
  "countQuery search filter_tok = ''SELECT COUNT(*) FROM books'' @ whereStr search filter_tok"

definition listQuery :: "string \<Rightarrow> string \<Rightarrow> string" where
  "listQuery search filter_tok =
     ''SELECT id, title, has_sales FROM books'' @ whereStr search filter_tok
     @ '' ORDER BY id LIMIT ? OFFSET ?''"

definition pagedArgs :: "string \<Rightarrow> int \<Rightarrow> int \<Rightarrow> sqlval list" where
  "pagedArgs search limit offset = whereArgs search @ [VInt limit, VInt offset]"

text \<open>
  The statements with an \<open>IN\<close> list, for a non-empty list of identifiers
  (\<^verbatim>\<open>BulkUpdateBooksSalesStatus\<close> and \<^verbatim>\<open>DeleteBooks\<close> return before building
  them when the list is empty), and their arguments.
\<close>

definition salesStatusQuery :: "int list \<Rightarrow> string" where
  "salesStatusQuery ids =
     ''UPDATE books SET has_sales = ? WHERE id IN (?'' @ Repeat '',?'' (length ids - 1) @ '')''"

definition salesStatusArgs :: "int list \<Rightarrow> bool \<Rightarrow> sqlval list" where
  "salesStatusArgs ids status = VBool status # map VInt ids"

definition deleteQuery :: "int list \<Rightarrow> string" where
  "deleteQuery ids = ''DELETE FROM books WHERE id IN (?'' @ Repeat '',?'' (length ids - 1) @ '')''"

definition deleteArgs :: "int list \<Rightarrow> sqlval list" where
  "deleteArgs ids = map VInt ids"

subsection \<open>The store: statement texts\<close>

text \<open>
  The store is SQLite behind \<^verbatim>\<open>database/sql\<close>; it is not part of main.go. It is
  modelled for the statements main.go issues against table \<open>books\<close>
  (\<^verbatim>\<open>id INTEGER PRIMARY KEY AUTOINCREMENT, title TEXT NOT NULL, has_sales BOOLEAN NOT NULL\<close>):
  a statement text is parsed and compiled, its placeholders are bound from left to
  right, and it is run on the rows of the table. A text outside these shapes is a
  syntax error.
\<close>

datatype error =
    ErrNoRows
  | ErrTxDone
  | ErrDriver nat
  | ErrSyntax
  | ErrBind
  | ErrFull
  | ErrScan
  | ErrTooManyVariables
  | ErrLikeTooComplex

datatype cond = TitleLike | HasSalesIs bool

datatype stmt =
    SelectById
  | SelectCount "cond list"
  | SelectPage "cond list"
  | UpdateById
  | UpdateSalesIn nat
  | InsertBook
  | DeleteIn nat

fun strip_prefix :: "string \<Rightarrow> string \<Rightarrow> string option" where
  "strip_prefix [] s = Some s"
| "strip_prefix (p # ps) [] = None"
| "strip_prefix (p # ps) (c # cs) = (if p = c then strip_prefix ps cs else None)"

definition parse_cond :: "string \<Rightarrow> (cond \<times> string) option" where
  "parse_cond s =
     (case strip_prefix ''title LIKE ?'' s of
        Some r \<Rightarrow> Some (TitleLike, r)
      | None \<Rightarrow>
     (case strip_prefix ''has_sales = 1'' s of
        Some r \<Rightarrow> Some (HasSalesIs True, r)
      | None \<Rightarrow>
     (case strip_prefix ''has_sales = 0'' s of
        Some r \<Rightarrow> Some (HasSalesIs False, r)
      | None \<Rightarrow> None)))"

function parse_conds :: "string \<Rightarrow> (cond list \<times> string) option" where
  "parse_conds s =
     (case parse_cond s of
        None \<Rightarrow> None
      | Some (c, r) \<Rightarrow>
          (case strip_prefix '' AND '' r of
             None \<Rightarrow> Some ([c], r)
           | Some r' \<Rightarrow>
               (case parse_conds r' of
                  None \<Rightarrow> None
                | Some (cs, r'') \<Rightarrow> Some (c # cs, r''))))"
  by pat_completeness auto
termination
proof (relation "measure length")
  show "wf (measure length)" by simp
next
  fix s :: string and x c r r'
  assume a: "parse_cond s = Some x" "(c, r) = x" "strip_prefix '' AND '' r = Some r'"
  have sp: "strip_prefix p t = Some u \<Longrightarrow> length u \<le> length t" for p t u
    by (induction p t rule: strip_prefix.induct) (auto split: if_splits)
  from a(1,2) have "length r \<le> length s"
    by (auto simp: parse_cond_def split: option.splits dest: sp)
  moreover from a(3) have "length r' < length r"
    by (cases r) (auto split: if_splits dest: sp)
  ultimately show "(r', s) \<in> measure length" by simp
qed

definition parse_where :: "string \<Rightarrow> (cond list \<times> string) option" where
  "parse_where s =
     (case strip_prefix '' WHERE '' s of
        None \<Rightarrow> Some ([], s)
      | Some r \<Rightarrow> parse_conds r)"

text \<open>The rest of an \<open>IN (?\<close> list: any number of \<open>,?\<close> and the closing bracket.\<close>

fun parse_in_list :: "string \<Rightarrow> nat option" where
  "parse_in_list (a # b # s) =
     (if a = CHR '','' \<and> b = CHR ''?'' then map_option Suc (parse_in_list s) else None)"
| "parse_in_list [c] = (if c = CHR '')'' then Some 0 else None)"
| "parse_in_list [] = None"

definition parse_stmt :: "string \<Rightarrow> stmt option" where
  "parse_stmt q =
     (if q = ''SELECT id, title, has_sales FROM books WHERE id = ?'' then Some SelectById
      else if q = ''UPDATE books SET title = ?, has_sales = ? WHERE id = ?'' then Some UpdateById
      else if q = ''INSERT INTO books (title, has_sales) VALUES (?, ?)'' then Some InsertBook
      else
     (case strip_prefix ''SELECT COUNT(*) FROM books'' q of
        Some r \<Rightarrow>
          (case parse_where r of
             Some (cs, rest) \<Rightarrow> if rest = [] then Some (SelectCount cs) else None
           | None \<Rightarrow> None)
      | None \<Rightarrow>
     (case strip_prefix ''SELECT id, title, has_sales FROM books'' q of
        Some r \<Rightarrow>
          (case parse_where r of
             Some (cs, rest) \<Rightarrow>
               if rest = '' ORDER BY id LIMIT ? OFFSET ?'' then Some (SelectPage cs) else None
           | None \<Rightarrow> None)
      | None \<Rightarrow>
     (case strip_prefix ''UPDATE books SET has_sales = ? WHERE id IN (?'' q of
        Some r \<Rightarrow> map_option (\<lambda>k. UpdateSalesIn (Suc k)) (parse_in_list r)
      | None \<Rightarrow>
     (case strip_prefix ''DELETE FROM books WHERE id IN (?'' q of
        Some r \<Rightarrow> map_option (\<lambda>k. DeleteIn (Suc k)) (parse_in_list r)
      | None \<Rightarrow> None)))))"

text \<open>
  A statement may hold at most 32766 placeholders (the default
  \<open>SQLITE_MAX_VARIABLE_NUMBER\<close>); SQLite refuses to compile one with more
  ("too many SQL variables").
\<close>

definition SQLITE_MAX_VARIABLE_NUMBER :: nat where
  "SQLITE_MAX_VARIABLE_NUMBER = 32766"

fun stmt_variables :: "stmt \<Rightarrow> nat" where
  "stmt_variables SelectById = 1"
| "stmt_variables (SelectCount cs) = length (filter (\<lambda>c. c = TitleLike) cs)"
| "stmt_variables (SelectPage cs) = length (filter (\<lambda>c. c = TitleLike) cs) + 2"
| "stmt_variables UpdateById = 3"
| "stmt_variables (UpdateSalesIn n) = n + 1"
| "stmt_variables InsertBook = 2"
| "stmt_variables (DeleteIn n) = n"

definition compile_stmt :: "string \<Rightarrow> error + stmt" where
  "compile_stmt q =
     (case parse_stmt q of
        None \<Rightarrow> Inl ErrSyntax
      | Some st \<Rightarrow>
          if SQLITE_MAX_VARIABLE_NUMBER < stmt_variables st then Inl ErrTooManyVariables
          else Inr st)"

subsection \<open>The store: running a statement\<close>

text \<open>
  SQLite's \<open>LIKE\<close>: \<open>%\<close> stands for any run of characters, \<open>_\<close> for any one
  character, and every other character for itself, the letters A to Z without regard
  to case. Characters are the bytes of the Go string. SQLite reads the bytes as UTF-8
  and takes a sequence of several bytes for one character; for pattern and text in
  valid UTF-8 without a zero byte the two readings give the same matches, except that
  \<open>_\<close> here stands for one byte of such a sequence.
\<close>

definition ascii_lower :: "char \<Rightarrow> char" where
  "ascii_lower c =
     (case map_of (zip ''ABCDEFGHIJKLMNOPQRSTUVWXYZ'' ''abcdefghijklmnopqrstuvwxyz'') c of
        Some l \<Rightarrow> l
      | None \<Rightarrow> c)"

fun sql_like :: "string \<Rightarrow> string \<Rightarrow> bool" where
  "sql_like [] s = (s = [])"
| "sql_like (p # ps) [] = (p = CHR ''%'' \<and> sql_like ps [])"
| "sql_like (p # ps) (c # cs) =
     (if p = CHR ''%'' then sql_like ps (c # cs) \<or> sql_like (p # ps) cs
      else if p = CHR ''_'' then sql_like ps cs
      else ascii_lower p = ascii_lower c \<and> sql_like ps cs)"

text \<open>
  The \<open>LIKE\<close> function refuses a pattern of more than 50000 bytes (the default
  \<open>SQLITE_MAX_LIKE_PATTERN_LENGTH\<close>) each time it is called
  ("LIKE or GLOB pattern too complex").
\<close>

definition SQLITE_MAX_LIKE_PATTERN_LENGTH :: nat where
  "SQLITE_MAX_LIKE_PATTERN_LENGTH = 50000"

text \<open>
  Table \<open>books\<close>: its rows, and the largest identifier the table has ever given out
  (the table's entry in \<open>sqlite_sequence\<close>, kept for \<open>AUTOINCREMENT\<close>).
\<close>

record table =
  rows :: "Book list"
  autoinc :: int

text \<open>
  What a statement returns: the rows a \<open>SELECT\<close> delivers, and the error that ended
  the scan before its end if there is one (the driver runs the scan row by row as the
  caller asks for rows, so the rows before the error have been delivered); the number
  of a \<open>COUNT\<close>; or for a change the number of rows affected and the last inserted
  identifier.
\<close>

datatype outcome = Rows "Book list" "error option" | Count int | Changed nat int

text \<open>
  The clauses of a \<open>WHERE\<close> bound to their arguments: the row predicate and the
  arguments left over.
\<close>

fun bind_conds :: "cond list \<Rightarrow> sqlval list \<Rightarrow> ((Book \<Rightarrow> bool) \<times> sqlval list) option" where
  "bind_conds [] args = Some (\<lambda>r. True, args)"
| "bind_conds (TitleLike # cs) (VText pat # args) =
     (case bind_conds cs args of
        None \<Rightarrow> None
      | Some (p, rest) \<Rightarrow> Some (\<lambda>r. sql_like pat (Title r) \<and> p r, rest))"
| "bind_conds (TitleLike # cs) args = None"
| "bind_conds (HasSalesIs b # cs) args =
     (case bind_conds cs args of
        None \<Rightarrow> None
      | Some (p, rest) \<Rightarrow> Some (\<lambda>r. HasSales r = b \<and> p r, rest))"

text \<open>
  Whether the clauses, tested on a row from left to right until one fails, call
  \<open>LIKE\<close> with a pattern beyond the limit.
\<close>

fun like_raises :: "cond list \<Rightarrow> sqlval list \<Rightarrow> Book \<Rightarrow> bool" where
  "like_raises (TitleLike # cs) (VText pat # args) r =
     (SQLITE_MAX_LIKE_PATTERN_LENGTH < length pat
      \<or> (sql_like pat (Title r) \<and> like_raises cs args r))"
| "like_raises (HasSalesIs b # cs) args r = (HasSales r = b \<and> like_raises cs args r)"
| "like_raises cs args r = False"

text \<open>
  The rows a scan visits until it has found \<open>k\<close> rows that satisfy the predicate.
\<close>

fun rows_scanned :: "(Book \<Rightarrow> bool) \<Rightarrow> nat \<Rightarrow> Book list \<Rightarrow> Book list" where
  "rows_scanned p 0 rs = []"
| "rows_scanned p (Suc k) [] = []"
| "rows_scanned p (Suc k) (r # rs) = r # rows_scanned p (if p r then k else Suc k) rs"

text \<open>
  The rows a page query visits, in identifier order: none for limit 0, all of them
  without a limit, and otherwise as many as it takes to find offset plus limit rows
  that satisfy the predicate.
\<close>

definition page_scan :: "(Book \<Rightarrow> bool) \<Rightarrow> int \<Rightarrow> int \<Rightarrow> Book list \<Rightarrow> Book list" where
  "page_scan p limit offset rs =
     (if limit < 0 then sort_key ID rs
      else if limit = 0 then []
      else rows_scanned p (nat offset + nat limit) (sort_key ID rs))"

text \<open>The identifiers bound to an \<open>IN\<close> list of \<open>n\<close> placeholders.\<close>

fun bind_ids :: "sqlval list \<Rightarrow> int list option" where
  "bind_ids [] = Some []"
| "bind_ids (VInt i # vs) = map_option ((#) i) (bind_ids vs)"
| "bind_ids (v # vs) = None"

text \<open>\<open>LIMIT\<close> and \<open>OFFSET\<close>: a negative limit is no limit, a negative offset is 0.\<close>

definition sql_limit :: "int \<Rightarrow> int \<Rightarrow> 'a list \<Rightarrow> 'a list" where
  "sql_limit limit offset xs =
     (if limit < 0 then drop (nat offset) xs else take (nat limit) (drop (nat offset) xs))"

text \<open>
  The identifier of a new row under \<open>AUTOINCREMENT\<close>: one more than the largest
  identifier in the table (1 in an empty table), and more than every identifier given
  out before.
\<close>

fun max_rowid :: "Book list \<Rightarrow> int option" where
  "max_rowid [] = None"
| "max_rowid (r # rs) =
     (case max_rowid rs of None \<Rightarrow> Some (ID r) | Some m \<Rightarrow> Some (max (ID r) m))"

definition new_rowid :: "table \<Rightarrow> int" where
  "new_rowid t =
     max (case max_rowid (rows t) of None \<Rightarrow> 1 | Some m \<Rightarrow> m + 1) (autoinc t + 1)"

fun exec_stmt :: "stmt \<Rightarrow> sqlval list \<Rightarrow> table \<Rightarrow> error + (table \<times> outcome)" where
  "exec_stmt SelectById [VInt i] t = Inr (t, Rows (filter (\<lambda>r. ID r = i) (rows t)) None)"
| "exec_stmt (SelectCount cs) args t =
     (case bind_conds cs args of
        Some (p, []) \<Rightarrow>
          if list_ex (like_raises cs args) (rows t) then Inl ErrLikeTooComplex
          else Inr (t, Count (int (length (filter p (rows t)))))
      | _ \<Rightarrow> Inl ErrBind)"
| "exec_stmt (SelectPage cs) args t =
     (case bind_conds cs args of
        Some (p, [VInt limit, VInt offset]) \<Rightarrow>
          if list_ex (like_raises cs args) (page_scan p limit offset (rows t))
          then Inr (t, Rows (sql_limit limit offset
                               (filter p (takeWhile (\<lambda>r. \<not> like_raises cs args r)
                                            (sort_key ID (rows t)))))
                            (Some ErrLikeTooComplex))
          else Inr (t, Rows (sql_limit limit offset (sort_key ID (filter p (rows t)))) None)
      | _ \<Rightarrow> Inl ErrBind)"
| "exec_stmt UpdateById [VText ti, VBool hs, VInt i] t =
     Inr (t\<lparr>rows := map (\<lambda>r. if ID r = i then r\<lparr>Title := ti, HasSales := hs\<rparr> else r) (rows t)\<rparr>,
          Changed (length (filter (\<lambda>r. ID r = i) (rows t))) (autoinc t))"
| "exec_stmt (UpdateSalesIn n) (VBool hs # vs) t =
     (case bind_ids vs of
        Some ids \<Rightarrow>
          if length ids = n
          then Inr (t\<lparr>rows := map (\<lambda>r. if ID r \<in> set ids then r\<lparr>HasSales := hs\<rparr> else r) (rows t)\<rparr>,
                    Changed (length (filter (\<lambda>r. ID r \<in> set ids) (rows t))) (autoinc t))
          else Inl ErrBind
      | None \<Rightarrow> Inl ErrBind)"
| "exec_stmt InsertBook [VText ti, VBool hs] t =
     (if new_rowid t > 2 ^ 63 - 1 then Inl ErrFull
      else Inr (\<lparr>rows = rows t @ [\<lparr>ID = new_rowid t, Title = ti, HasSales = hs\<rparr>],
                 autoinc = new_rowid t\<rparr>,
                Changed 1 (new_rowid t)))"
| "exec_stmt (DeleteIn n) vs t =
     (case bind_ids vs of
        Some ids \<Rightarrow>
          if length ids = n
          then Inr (t\<lparr>rows := filter (\<lambda>r. ID r \<notin> set ids) (rows t)\<rparr>,
                    Changed (length (filter (\<lambda>r. ID r \<in> set ids) (rows t))) (autoinc t))
          else Inl ErrBind
      | None \<Rightarrow> Inl ErrBind)"
| "exec_stmt st args t = Inl ErrBind"

subsection \<open>The store: connection and transaction\<close>

text \<open>
  The database handle: the committed table, the working copy of the open transaction
  (if one is open), the statements issued so far, and what the environment will do to
  the coming calls. Each call that reaches the store takes the head of \<open>faults\<close>:
  \<open>Some e\<close> makes the call fail with \<open>e\<close> and change nothing (a lost connection, a
  cancelled context, a busy database), \<open>None\<close> or an empty list lets it run. What the
  store itself refuses (too many placeholders, a pattern too long, a full table) is
  not in this list: it follows from the statement and its arguments.
\<close>

record DB =
  committed :: table
  pending :: "table option"
  issued :: "(string \<times> sqlval list) list"
  faults :: "error option list"

definition next_fault :: "DB \<Rightarrow> error option \<times> DB" where
  "next_fault db =
     (case faults db of
        [] \<Rightarrow> (None, db)
      | f # fs \<Rightarrow> (f, db\<lparr>faults := fs\<rparr>))"

definition issue :: "DB \<Rightarrow> string \<Rightarrow> sqlval list \<Rightarrow> DB" where
  "issue db q args = db\<lparr>issued := issued db @ [(q, args)]\<rparr>"

text \<open>
  \<^verbatim>\<open>db.ExecContext\<close>, \<^verbatim>\<open>db.QueryContext\<close> and \<^verbatim>\<open>db.QueryRowContext\<close>: one statement
  on the committed table.
\<close>

definition ExecContext :: "DB \<Rightarrow> string \<Rightarrow> sqlval list \<Rightarrow> DB \<times> (error + outcome)" where
  "ExecContext db q args =
     (case next_fault (issue db q args) of
        (Some e, db1) \<Rightarrow> (db1, Inl e)
      | (None, db1) \<Rightarrow>
          (case compile_stmt q of
             Inl e \<Rightarrow> (db1, Inl e)
           | Inr st \<Rightarrow>
               (case exec_stmt st args (committed db1) of
                  Inl e \<Rightarrow> (db1, Inl e)
                | Inr (t, out) \<Rightarrow> (db1\<lparr>committed := t\<rparr>, Inr out))))"

definition QueryContext :: "DB \<Rightarrow> string \<Rightarrow> sqlval list \<Rightarrow> DB \<times> (error + outcome)" where
  "QueryContext db q args = ExecContext db q args"

definition QueryRowContext :: "DB \<Rightarrow> string \<Rightarrow> sqlval list \<Rightarrow> DB \<times> (error + outcome)" where
  "QueryRowContext db q args = ExecContext db q args"

text \<open>
  \<^verbatim>\<open>Row.Scan\<close> into a book (the first row, or else the error of the scan, or
  \<^verbatim>\<open>sql.ErrNoRows\<close>), \<^verbatim>\<open>Row.Scan\<close> into a count, and the
  \<^verbatim>\<open>rows.Next\<close>/\<^verbatim>\<open>rows.Scan\<close> loop collecting books. The loop of \<^verbatim>\<open>ListBooks\<close>
  ends when \<^verbatim>\<open>rows.Next\<close> returns false; the function does not ask \<^verbatim>\<open>rows.Err\<close>
  why, so an error that ends the scan is not returned and the books delivered before
  it are the page.
\<close>

fun Scan_book :: "outcome \<Rightarrow> error + Book" where
  "Scan_book (Rows (b # bs) e) = Inr b"
| "Scan_book (Rows [] (Some e)) = Inl e"
| "Scan_book (Rows [] None) = Inl ErrNoRows"
| "Scan_book out = Inl ErrScan"

fun Scan_count :: "outcome \<Rightarrow> error + int" where
  "Scan_count (Count n) = Inr n"
| "Scan_count out = Inl ErrScan"

fun Scan_rows :: "outcome \<Rightarrow> error + Book list" where
  "Scan_rows (Rows bs e) = Inr bs"
| "Scan_rows out = Inl ErrScan"

fun LastInsertId :: "outcome \<Rightarrow> error + int" where
  "LastInsertId (Changed n i) = Inr i"
| "LastInsertId out = Inl ErrScan"

text \<open>
  \<^verbatim>\<open>db.BeginTx\<close> opens a transaction on a copy of the table; \<^verbatim>\<open>tx.PrepareContext\<close>
  compiles a statement; \<^verbatim>\<open>stmt.ExecContext\<close> runs it on the copy; \<^verbatim>\<open>tx.Commit\<close>
  installs the copy, and a commit that fails drops it; \<^verbatim>\<open>tx.Rollback\<close> drops the
  copy, and does nothing once the transaction is over.
\<close>

definition BeginTx :: "DB \<Rightarrow> DB \<times> (error + unit)" where
  "BeginTx db =
     (case next_fault db of
        (Some e, db1) \<Rightarrow> (db1, Inl e)
      | (None, db1) \<Rightarrow> (db1\<lparr>pending := Some (committed db1)\<rparr>, Inr ()))"

definition PrepareContext :: "DB \<Rightarrow> string \<Rightarrow> DB \<times> (error + string \<times> stmt)" where
  "PrepareContext db q =
     (case next_fault db of
        (Some e, db1) \<Rightarrow> (db1, Inl e)
      | (None, db1) \<Rightarrow>
          (case compile_stmt q of
             Inl e \<Rightarrow> (db1, Inl e)
           | Inr st \<Rightarrow> (db1, Inr (q, st))))"

definition stmt_ExecContext :: "DB \<Rightarrow> string \<times> stmt \<Rightarrow> sqlval list \<Rightarrow> DB \<times> (error + outcome)" where
  "stmt_ExecContext db prepared args =
     (case next_fault (issue db (fst prepared) args) of
        (Some e, db1) \<Rightarrow> (db1, Inl e)
      | (None, db1) \<Rightarrow>
          (case pending db1 of
             None \<Rightarrow> (db1, Inl ErrTxDone)
           | Some w \<Rightarrow>
               (case exec_stmt (snd prepared) args w of
                  Inl e \<Rightarrow> (db1, Inl e)
                | Inr (t, out) \<Rightarrow> (db1\<lparr>pending := Some t\<rparr>, Inr out))))"

definition Commit :: "DB \<Rightarrow> DB \<times> error option" where
  "Commit db =
     (case pending db of
        None \<Rightarrow> (db, Some ErrTxDone)
      | Some w \<Rightarrow>
          (case next_fault db of
             (Some e, db1) \<Rightarrow> (db1\<lparr>pending := None\<rparr>, Some e)
           | (None, db1) \<Rightarrow> (db1\<lparr>committed := w, pending := None\<rparr>, None)))"

definition Rollback :: "DB \<Rightarrow> DB \<times> error option" where
  "Rollback db =
     (case pending db of
        None \<Rightarrow> (db, Some ErrTxDone)
      | Some w \<Rightarrow> (db\<lparr>pending := None\<rparr>, None))"

subsection \<open>The repository\<close>

definition GetBook :: "DB \<Rightarrow> int \<Rightarrow> DB \<times> (error + Book)" where
  "GetBook db i =
     (case QueryRowContext db ''SELECT id, title, has_sales FROM books WHERE id = ?'' [VInt i] of
        (db1, Inl err) \<Rightarrow> (db1, Inl err)
      | (db1, Inr out) \<Rightarrow> (db1, Scan_book out))"

definition ListBooks :: "DB \<Rightarrow> int \<Rightarrow> int \<Rightarrow> string \<Rightarrow> string \<Rightarrow> DB \<times> (error + PaginatedBooks)" where
  "ListBooks db limit offset search filter_tok =
     (case QueryRowContext db (countQuery search filter_tok) (whereArgs search) of
        (db1, Inl err) \<Rightarrow> (db1, Inl err)
      | (db1, Inr out) \<Rightarrow>
          (case Scan_count out of
             Inl err \<Rightarrow> (db1, Inl err)
           | Inr totalCount \<Rightarrow>
               (case QueryContext db1 (listQuery search filter_tok) (pagedArgs search limit offset) of
                  (db2, Inl err) \<Rightarrow> (db2, Inl err)
                | (db2, Inr out2) \<Rightarrow>
                    (case Scan_rows out2 of
                       Inl err \<Rightarrow> (db2, Inl err)
                     | Inr books \<Rightarrow> (db2, Inr \<lparr>Books = books, TotalCount = totalCount\<rparr>)))))"

definition UpdateBook :: "DB \<Rightarrow> Book \<Rightarrow> DB \<times> error option" where
  "UpdateBook db book =
     (case ExecContext db ''UPDATE books SET title = ?, has_sales = ? WHERE id = ?''
             [VText (Title book), VBool (HasSales book), VInt (ID book)] of
        (db1, Inl err) \<Rightarrow> (db1, Some err)
      | (db1, Inr out) \<Rightarrow> (db1, None))"

definition BulkUpdateBooksSalesStatus :: "DB \<Rightarrow> int list \<Rightarrow> bool \<Rightarrow> DB \<times> error option" where
  "BulkUpdateBooksSalesStatus db ids status =
     (if length ids = 0 then (db, None)
      else
        (case ExecContext db (salesStatusQuery ids) (salesStatusArgs ids status) of
           (db1, Inl err) \<Rightarrow> (db1, Some err)
         | (db1, Inr out) \<Rightarrow> (db1, None)))"

definition CreateBook :: "DB \<Rightarrow> Book \<Rightarrow> DB \<times> (error + Book)" where
  "CreateBook db book =
     (case ExecContext db ''INSERT INTO books (title, has_sales) VALUES (?, ?)''
             [VText (Title book), VBool (HasSales book)] of
        (db1, Inl err) \<Rightarrow> (db1, Inl err)
      | (db1, Inr res) \<Rightarrow>
          (case LastInsertId res of
             Inl err \<Rightarrow> (db1, Inl err)
           | Inr i \<Rightarrow> (db1, Inr (book\<lparr>ID := i\<rparr>))))"

definition DeleteBooks :: "DB \<Rightarrow> int list \<Rightarrow> DB \<times> error option" where
  "DeleteBooks db ids =
     (if length ids = 0 then (db, None)
      else
        (case ExecContext db (deleteQuery ids) (deleteArgs ids) of
           (db1, Inl err) \<Rightarrow> (db1, Some err)
         | (db1, Inr out) \<Rightarrow> (db1, None)))"

text \<open>
  \<^verbatim>\<open>BulkUpdateBooks\<close>: the loop over the books on the prepared statement, and the
  function around it. \<^verbatim>\<open>defer tx.Rollback()\<close> runs on every return after the
  transaction has begun, and its result is dropped.
\<close>

fun exec_books :: "DB \<Rightarrow> string \<times> stmt \<Rightarrow> Book list \<Rightarrow> DB \<times> error option" where
  "exec_books db prepared [] = (db, None)"
| "exec_books db prepared (book # rest) =
     (case stmt_ExecContext db prepared
             [VText (Title book), VBool (HasSales book), VInt (ID book)] of
        (db1, Inl err) \<Rightarrow> (db1, Some err)
      | (db1, Inr out) \<Rightarrow> exec_books db1 prepared rest)"

definition BulkUpdateBooks_tx :: "DB \<Rightarrow> Book list \<Rightarrow> DB \<times> error option" where
  "BulkUpdateBooks_tx db booksToUpdate =
     (case PrepareContext db ''UPDATE books SET title = ?, has_sales = ? WHERE id = ?'' of
        (db1, Inl err) \<Rightarrow> (db1, Some err)
      | (db1, Inr prepared) \<Rightarrow>
          (case exec_books db1 prepared booksToUpdate of
             (db2, Some err) \<Rightarrow> (db2, Some err)
           | (db2, None) \<Rightarrow> Commit db2))"

definition BulkUpdateBooks :: "DB \<Rightarrow> Book list \<Rightarrow> DB \<times> error option" where
  "BulkUpdateBooks db booksToUpdate =
     (case BeginTx db of
        (db1, Inl err) \<Rightarrow> (db1, Some err)
      | (db1, Inr tx) \<Rightarrow>
          (case BulkUpdateBooks_tx db1 booksToUpdate of
             (db2, r) \<Rightarrow> (fst (Rollback db2), r)))"

subsection \<open>Reading the store\<close>

text \<open>
  The row predicate that the store makes of the \<open>WHERE\<close> text and the arguments that
  \<^verbatim>\<open>ListBooks\<close> builds for a search string and a filter token.
\<close>

definition where_pred :: "string \<Rightarrow> string \<Rightarrow> (Book \<Rightarrow> bool) option" where
  "where_pred search filter_tok =
     (case parse_where (whereStr search filter_tok) of
        Some (cs, rest) \<Rightarrow>
          (if rest = [] then
             (case bind_conds cs (whereArgs search) of
                Some (p, left) \<Rightarrow> (if left = [] then Some p else None)
              | None \<Rightarrow> None)
           else None)
      | None \<Rightarrow> None)"

text \<open>
  The store answers the next \<open>n\<close> calls: none of them is made to fail from outside.
  Whether the store then refuses the statement itself is not part of this; it is
  decided by \<open>compile_stmt\<close> and \<open>exec_stmt\<close>.
\<close>

definition answers :: "nat \<Rightarrow> DB \<Rightarrow> bool" where
  "answers n db = list_all (\<lambda>f. f = None) (take n (faults db))"

text \<open>The first failure in a run of calls, if there is one.\<close>

fun first_fault :: "error option list \<Rightarrow> error option" where
  "first_fault [] = None"
| "first_fault (None # fs) = first_fault fs"
| "first_fault (Some e # fs) = Some e"

text \<open>The placeholders of a statement text.\<close>

definition placeholders :: "string \<Rightarrow> nat" where
  "placeholders q = length (filter (\<lambda>c. c = CHR ''?'') q)"

subsection \<open>The sample data\<close>

text \<open>
  The database as \<^verbatim>\<open>NewDatabase\<close> leaves it on first start: the seven sample books, no
  transaction open, no statement issued by the repository yet, and a store that
  answers every call.
\<close>

definition sample_books :: "Book list" where
  "sample_books =
     [\<lparr>ID = 1, Title = ''Sample Book 1'', HasSales = True\<rparr>,
      \<lparr>ID = 2, Title = ''Sample Book 2'', HasSales = False\<rparr>,
      \<lparr>ID = 3, Title = ''Sample Book 3'', HasSales = False\<rparr>,
      \<lparr>ID = 4, Title = ''Sample Book 4'', HasSales = False\<rparr>,
      \<lparr>ID = 5, Title = ''Sample Book 5'', HasSales = False\<rparr>,
      \<lparr>ID = 6, Title = ''Sample Book 6'', HasSales = False\<rparr>,
      \<lparr>ID = 7, Title = ''Sample Book 7'', HasSales = False\<rparr>]"

definition sample_db :: DB where
  "sample_db =
     \<lparr>committed = \<lparr>rows = sample_books, autoinc = 7\<rparr>,
      pending = None, issued = [], faults = []\<rparr>"

section \<open>Properties\<close>

subsection \<open>Pagination metadata\<close>

text \<open>
  Rounding to the nearest integer, ties to even, lies within the integer bounds of the
  quotient, and goes up when the quotient is beyond a half.
\<close>

lemma rhe_bounds:
  assumes "0 < d"
  shows "I * d \<le> n \<Longrightarrow> I \<le> round_half_even n d"
    and "n \<le> I * d \<Longrightarrow> round_half_even n d \<le> I"
    and "(2 * I + 1) * d < 2 * n \<Longrightarrow> I + 1 \<le> round_half_even n d"
proof -
  define q where "q = n div d"
  define r where "r = n mod d"
  have n: "n = q * d + r" by (simp add: q_def r_def)
  have r: "0 \<le> r" "r < d" using assms by (simp_all add: r_def)
  have cases: "round_half_even n d = q \<or> (round_half_even n d = q + 1 \<and> d \<le> 2 * r)"
    by (auto simp: round_half_even_def Let_def q_def r_def)
  have up: "d < 2 * r \<Longrightarrow> round_half_even n d = q + 1"
    by (auto simp: round_half_even_def Let_def q_def r_def)
  {
    assume "I * d \<le> n"
    then have "I * d < (q + 1) * d" using n r by (simp add: algebra_simps)
    then have "I < q + 1" using assms by (simp add: mult_less_cancel_right)
    then show "I \<le> round_half_even n d" using cases by auto
  }
  {
    assume a: "n \<le> I * d"
    then have "q * d \<le> I * d" using n r by linarith
    then have qI: "q \<le> I" using assms by (simp add: mult_le_cancel_right)
    show "round_half_even n d \<le> I"
    proof (cases "round_half_even n d = q")
      case True
      with qI show ?thesis by simp
    next
      case False
      with cases have c: "round_half_even n d = q + 1" "d \<le> 2 * r" by auto
      with assms have "0 < r" by simp
      with a n have "q * d < I * d" by simp
      then have "q < I" using assms by (simp add: mult_less_cancel_right)
      with c show ?thesis by simp
    qed
  }
  {
    assume a: "(2 * I + 1) * d < 2 * n"
    show "I + 1 \<le> round_half_even n d"
    proof (cases "I + 1 \<le> q")
      case True
      with cases show ?thesis by auto
    next
      case False
      then have qI: "q \<le> I" by simp
      have "(2 * I + 1) * d < 2 * q * d + 2 * r" using a n by (simp add: algebra_simps)
      also have "\<dots> \<le> 2 * I * d + 2 * r" using qI assms by (simp add: mult_right_mono)
      finally have "d < 2 * r" by (simp add: algebra_simps)
      moreover have "I \<le> q"
      proof -
        have "2 * I * d < 2 * q * d + 2 * d" using a n r assms by (simp add: algebra_simps)
        then have "I * d < (q + 1) * d" by (simp add: algebra_simps)
        then have "I < q + 1" using assms by (simp add: mult_less_cancel_right)
        then show ?thesis by simp
      qed
      ultimately show ?thesis using up qI by simp
    qed
  }
qed

lemma two_powi_nat: "0 \<le> e \<Longrightarrow> (2::real) powi e = 2 ^ nat e"
  by (simp add: power_int_def)

lemma two_powi_split: "(2::real) ^ nat (- e) / 2 ^ nat e = 2 powi (- e)"
proof (cases "0 \<le> e")
  case True
  then have "(2::real) powi (- e) = inverse (2 ^ nat e)"
    by (simp only: power_int_minus two_powi_nat)
  with True show ?thesis by (simp add: divide_inverse)
next
  case False
  then have "(2::real) powi (- e) = 2 ^ nat (- e)"
    by (simp add: two_powi_nat)
  with False show ?thesis by simp
qed

lemma bitlen_real_bounds:
  assumes "0 < n"
  shows "2 powi (bitlen n - 1) \<le> real_of_int n" and "real_of_int n < 2 powi (bitlen n)"
proof -
  have b: "1 \<le> bitlen n" using assms by (simp add: bitlen_alt_def)
  from bitlen_bounds [OF assms] have lo: "(2::int) ^ nat (bitlen n - 1) \<le> n"
    and hi: "n < (2::int) ^ nat (bitlen n)" by simp_all
  from lo have "real_of_int ((2::int) ^ nat (bitlen n - 1)) \<le> real_of_int n"
    by (simp only: of_int_le_iff)
  then show "2 powi (bitlen n - 1) \<le> real_of_int n"
    using b by (simp add: two_powi_nat)
  from hi have "real_of_int n < real_of_int ((2::int) ^ nat (bitlen n))"
    by (simp only: of_int_less_iff)
  then show "real_of_int n < 2 powi (bitlen n)"
    using b by (simp add: two_powi_nat)
qed

lemma two_powi_add: "(2::real) powi (a + b) = 2 powi a * 2 powi b"
  by (simp add: power_int_add)

lemma quotient_window:
  assumes "0 < n" "0 < d"
  shows "2 powi (bitlen n - bitlen d - 1) < real_of_int n / real_of_int d"
    and "real_of_int n / real_of_int d < 2 powi (bitlen n - bitlen d + 1)"
proof -
  define k where "k = bitlen n - bitlen d"
  note n = bitlen_real_bounds [OF assms(1)]
  note d = bitlen_real_bounds [OF assms(2)]
  have dpos: "0 < real_of_int d" using assms by simp
  have p: "(0::real) < 2 powi j" for j by simp
  have "2 powi (k - 1) * real_of_int d < 2 powi (k - 1) * 2 powi (bitlen d)"
    using d(2) p [of "k - 1"] by (simp only: mult_less_cancel_left_pos)
  also have "\<dots> = 2 powi (bitlen n - 1)"
    unfolding two_powi_add [symmetric] by (simp add: k_def)
  also have "\<dots> \<le> real_of_int n" by (rule n(1))
  finally have "2 powi (k - 1) < real_of_int n / real_of_int d"
    using dpos by (simp add: pos_less_divide_eq)
  then show "2 powi (bitlen n - bitlen d - 1) < real_of_int n / real_of_int d"
    by (simp add: k_def)
  have "real_of_int n < 2 powi (bitlen n)" by (rule n(2))
  also have "\<dots> = 2 powi (k + 1) * 2 powi (bitlen d - 1)"
    unfolding two_powi_add [symmetric] by (simp add: k_def)
  also have "\<dots> \<le> 2 powi (k + 1) * real_of_int d"
    using d(1) p [of "k + 1"] by (simp only: mult_le_cancel_left_pos)
  finally have "real_of_int n / real_of_int d < 2 powi (k + 1)"
    using dpos by (simp add: pos_divide_less_eq)
  then show "real_of_int n / real_of_int d < 2 powi (bitlen n - bitlen d + 1)"
    by (simp add: k_def)
qed

lemma scaled_quotient:
  assumes "0 < d"
  shows "real_of_int (n * 2 ^ nat (- e)) / real_of_int (d * 2 ^ nat e)
           = real_of_int n / real_of_int d * 2 powi (- e)"
proof -
  have "real_of_int (n * 2 ^ nat (- e)) / real_of_int (d * 2 ^ nat e)
      = (real_of_int n / real_of_int d) * ((2::real) ^ nat (- e) / 2 ^ nat e)"
    by simp
  then show ?thesis by (simp only: two_powi_split)
qed

lemma floor_log2_test:
  assumes "0 < d"
  shows "n * 2 ^ nat (- k) < d * 2 ^ nat k \<longleftrightarrow> real_of_int n / real_of_int d < 2 powi k"
proof -
  have dk: "0 < real_of_int (d * 2 ^ nat k)" using assms by simp
  have "n * 2 ^ nat (- k) < d * 2 ^ nat k
      \<longleftrightarrow> real_of_int (n * 2 ^ nat (- k)) < real_of_int (d * 2 ^ nat k)"
    by (simp only: of_int_less_iff)
  also have "\<dots> \<longleftrightarrow> real_of_int (n * 2 ^ nat (- k)) / real_of_int (d * 2 ^ nat k) < 1"
    using dk by (simp only: pos_divide_less_eq) simp
  also have "\<dots> \<longleftrightarrow> real_of_int n / real_of_int d * 2 powi (- k) < 1"
    by (simp only: scaled_quotient [OF assms])
  also have "\<dots> \<longleftrightarrow> real_of_int n / real_of_int d < 2 powi k"
  proof -
    define p where "p = (2::real) powi k"
    define x where "x = real_of_int n / real_of_int d"
    have p: "0 < p" by (simp add: p_def)
    have "(2::real) powi (- k) = inverse p" unfolding p_def by (rule power_int_minus)
    then have "x * 2 powi (- k) = x / p" by (simp add: divide_inverse)
    moreover have "x / p < 1 \<longleftrightarrow> x < p" using p by (simp add: pos_divide_less_eq)
    ultimately show ?thesis unfolding p_def x_def by simp
  qed
  finally show ?thesis .
qed

lemma floor_log2_bounds:
  assumes "0 < n" "0 < d"
  shows "2 powi (floor_log2 n d) \<le> real_of_int n / real_of_int d"
    and "real_of_int n / real_of_int d < 2 powi (floor_log2 n d + 1)"
proof -
  define k where "k = bitlen n - bitlen d"
  define x where "x = real_of_int n / real_of_int d"
  from quotient_window [OF assms] have lo: "2 powi (k - 1) < x" and hi: "x < 2 powi (k + 1)"
    by (simp_all add: k_def x_def)
  have E: "floor_log2 n d = (if x < 2 powi k then k - 1 else k)"
    unfolding floor_log2_def Let_def k_def [symmetric] floor_log2_test [OF assms(2)] x_def
    by simp
  show "2 powi (floor_log2 n d) \<le> real_of_int n / real_of_int d"
  proof (cases "x < 2 powi k")
    case True
    with E lo show ?thesis by (simp add: x_def)
  next
    case False
    with E show ?thesis by (simp add: x_def)
  qed
  show "real_of_int n / real_of_int d < 2 powi (floor_log2 n d + 1)"
  proof (cases "x < 2 powi k")
    case True
    with E show ?thesis by (simp add: x_def)
  next
    case False
    with E hi show ?thesis by (simp add: x_def)
  qed
qed

lemma rhe_real_bounds:
  assumes "0 < d"
  shows "real_of_int I \<le> real_of_int n / real_of_int d \<Longrightarrow> I \<le> round_half_even n d"
    and "real_of_int n / real_of_int d \<le> real_of_int I \<Longrightarrow> round_half_even n d \<le> I"
    and "real_of_int I + 1 / 2 < real_of_int n / real_of_int d \<Longrightarrow> I + 1 \<le> round_half_even n d"
proof -
  have dpos: "0 < real_of_int d" using assms by simp
  {
    assume "real_of_int I \<le> real_of_int n / real_of_int d"
    then have "real_of_int I * real_of_int d \<le> real_of_int n"
      using dpos by (simp add: pos_le_divide_eq)
    then have "real_of_int (I * d) \<le> real_of_int n" by simp
    then have "I * d \<le> n" by (simp only: of_int_le_iff)
    then show "I \<le> round_half_even n d" by (rule rhe_bounds(1) [OF assms])
  }
  {
    assume "real_of_int n / real_of_int d \<le> real_of_int I"
    then have "real_of_int n \<le> real_of_int I * real_of_int d"
      using dpos by (simp add: pos_divide_le_eq)
    then have "real_of_int n \<le> real_of_int (I * d)" by simp
    then have "n \<le> I * d" by (simp only: of_int_le_iff)
    then show "round_half_even n d \<le> I" by (rule rhe_bounds(2) [OF assms])
  }
  {
    assume "real_of_int I + 1 / 2 < real_of_int n / real_of_int d"
    then have "(real_of_int I + 1 / 2) * real_of_int d < real_of_int n"
      using dpos by (simp add: pos_less_divide_eq)
    then have "real_of_int ((2 * I + 1) * d) < real_of_int (2 * n)"
      by (simp add: algebra_simps)
    then have "(2 * I + 1) * d < 2 * n" by (simp only: of_int_less_iff)
    then show "I + 1 \<le> round_half_even n d" by (rule rhe_bounds(3) [OF assms])
  }
qed

lemma round64_pos:
  assumes "0 < N" "0 < D"
  defines "e \<equiv> floor_log2 N D - 52"
  defines "s \<equiv> round_half_even (N * 2 ^ nat (- e)) (D * 2 ^ nat e)"
  defines "m \<equiv> real_of_int N / real_of_int D * 2 powi (- e)"
  shows "round64 N D = Finite s e"
    and "2 ^ 52 \<le> m" and "m < 2 ^ 53"
    and "real_of_int I \<le> m \<Longrightarrow> I \<le> s"
    and "m \<le> real_of_int I \<Longrightarrow> s \<le> I"
    and "real_of_int I + 1 / 2 < m \<Longrightarrow> I + 1 \<le> s"
proof -
  have N: "\<bar>N\<bar> = N" "sgn N = 1" "N \<noteq> 0" using assms(1) by simp_all
  show "round64 N D = Finite s e"
    by (simp add: round64_def Let_def N s_def e_def)
  let ?E = "floor_log2 N D"
  note b = floor_log2_bounds [OF assms(1,2)]
  have g: "(0::real) < 2 powi (- e)" by simp
  have "2 powi ?E * 2 powi (- e) \<le> m"
    unfolding m_def using b(1) g by (simp only: mult_le_cancel_right_pos)
  moreover have "(2::real) powi ?E * 2 powi (- e) = 2 powi 52"
    unfolding two_powi_add [symmetric] by (simp add: e_def)
  ultimately show "2 ^ 52 \<le> m" by (simp add: two_powi_nat)
  have "m < 2 powi (?E + 1) * 2 powi (- e)"
    unfolding m_def using b(2) g by (simp only: mult_less_cancel_right_pos)
  moreover have "(2::real) powi (?E + 1) * 2 powi (- e) = 2 powi 53"
    unfolding two_powi_add [symmetric] by (simp add: e_def)
  ultimately show "m < 2 ^ 53" by (simp add: two_powi_nat)
  have D': "0 < D * 2 ^ nat e" using assms(2) by simp
  have q: "real_of_int (N * 2 ^ nat (- e)) / real_of_int (D * 2 ^ nat e) = m"
    unfolding m_def by (rule scaled_quotient [OF assms(2)])
  show "real_of_int I \<le> m \<Longrightarrow> I \<le> s"
    unfolding s_def q [symmetric] by (rule rhe_real_bounds(1) [OF D'])
  show "m \<le> real_of_int I \<Longrightarrow> s \<le> I"
    unfolding s_def q [symmetric] by (rule rhe_real_bounds(2) [OF D'])
  show "real_of_int I + 1 / 2 < m \<Longrightarrow> I + 1 \<le> s"
    unfolding s_def q [symmetric] by (rule rhe_real_bounds(3) [OF D'])
qed

lemma two_powi_le_D:
  assumes "(2::real) powi a \<le> 2 powi b"
  shows "a \<le> b"
proof (rule ccontr)
  assume "\<not> a \<le> b"
  then have "b < a" by simp
  then have "(2::real) powi b < 2 powi a" by (rule power_int_strict_increasing) simp
  with assms show False by simp
qed

lemma two_powi_less_D:
  assumes "(2::real) powi a < 2 powi b"
  shows "a < b"
proof (rule ccontr)
  assume "\<not> a < b"
  then have "b \<le> a" by simp
  then have "(2::real) powi b \<le> 2 powi a" by (rule power_int_increasing) simp
  with assms show False by simp
qed


lemma round64_exact:
  assumes "0 < N" "0 < D" "real_of_int N / real_of_int D = real_of_int k" "k \<le> 2 ^ 53"
  shows "valof (round64 N D) = real_of_int k"
proof -
  define E where "E = floor_log2 N D"
  define e where "e = E - 52"
  define s where "s = round_half_even (N * 2 ^ nat (- e)) (D * 2 ^ nat e)"
  define m where "m = real_of_int N / real_of_int D * 2 powi (- e)"
  note r = round64_pos [OF assms(1,2), folded E_def, folded e_def, folded s_def m_def]
  note b = floor_log2_bounds [OF assms(1,2), folded E_def]
  have mk: "m = real_of_int k * 2 powi (- e)" by (simp add: m_def assms(3))
  have "(2::real) powi E \<le> 2 powi 53"
  proof -
    have "(2::real) powi E \<le> real_of_int k" using b(1) assms(3) by simp
    also have "\<dots> \<le> real_of_int (2 ^ 53)" using assms(4) by (simp only: of_int_le_iff)
    finally show ?thesis by (simp add: two_powi_nat)
  qed
  then have E53: "E \<le> 53" by (rule two_powi_le_D)
  have "\<exists>I. m = real_of_int I"
  proof (cases "E \<le> 52")
    case True
    then have "(2::real) powi (- e) = 2 ^ nat (- e)" by (simp add: e_def two_powi_nat)
    then have "m = real_of_int (k * 2 ^ nat (- e))" by (simp add: mk)
    then show ?thesis ..
  next
    case False
    with E53 have E: "E = 53" by simp
    then have "(2::real) ^ 53 \<le> real_of_int k" using b(1) assms(3) by (simp add: two_powi_nat)
    then have "real_of_int (2 ^ 53) \<le> real_of_int k" by simp
    then have "2 ^ 53 \<le> k" by (simp only: of_int_le_iff)
    with assms(4) have k: "k = 2 ^ 53" by simp
    have "(2::real) powi (- e) = 1 / 2" using E by (simp add: e_def power_int_minus)
    then have "m = real_of_int (2 ^ 52)" by (simp add: mk k)
    then show ?thesis ..
  qed
  then obtain I where I: "m = real_of_int I" ..
  from r(4) [of I] r(5) [of I] I have "s = I" by simp
  then have "real_of_int s = m" using I by simp
  moreover have "valof (round64 N D) = real_of_int s * 2 powi e" by (simp add: r(1))
  moreover have "m * 2 powi e = real_of_int k"
  proof -
    have "(2::real) powi (- e) * 2 powi e = 1"
      unfolding two_powi_add [symmetric] by simp
    then show ?thesis by (simp add: mk mult.assoc)
  qed
  ultimately show ?thesis by simp
qed



lemma round64_Finite_pos:
  assumes "0 < N" "0 < D"
  obtains s e where "round64 N D = Finite s e" "0 < s" "e = floor_log2 N D - 52"
proof -
  define e where "e = floor_log2 N D - 52"
  define s where "s = round_half_even (N * 2 ^ nat (- e)) (D * 2 ^ nat e)"
  define m where "m = real_of_int N / real_of_int D * 2 powi (- e)"
  note r = round64_pos [OF assms, folded e_def, folded s_def m_def]
  have "real_of_int (2 ^ 52) \<le> m" using r(2) by simp
  then have "2 ^ 52 \<le> s" by (rule r(4))
  then have "0 < s" by simp
  with r(1) e_def that show thesis by blast
qed



lemma float64_value:
  assumes "0 < sint w"
  obtains s e d0 where "float64 w = Finite s e" "0 < s" "real_of_int s * 2 powi e = real_of_int d0"
    "0 < d0" "sint w \<le> 2 ^ 53 \<Longrightarrow> d0 = sint w" "2 ^ 53 < sint w \<Longrightarrow> 2 ^ 53 \<le> d0"
proof -
  define N where "N = sint w"
  have N: "0 < N" using assms by (simp add: N_def)
  obtain s e where r: "round64 N 1 = Finite s e" "0 < s" and e: "e = floor_log2 N 1 - 52"
    using round64_Finite_pos [OF N, of 1] by auto
  have f: "float64 w = Finite s e" by (simp add: float64_def N_def [symmetric] r(1))
  show thesis
  proof (cases "N \<le> 2 ^ 53")
    case True
    have "real_of_int N / real_of_int 1 = real_of_int N" by simp
    from round64_exact [OF N _ this True] r(1) have "real_of_int s * 2 powi e = real_of_int N"
      by simp
    with f r(2) N True that [of s e N] show thesis by (simp add: N_def)
  next
    case False
    then have big: "2 ^ 53 < N" by simp
    have "real_of_int (2 ^ 53) < real_of_int N" using big by (simp only: of_int_less_iff)
    also have "\<dots> < 2 powi (floor_log2 N 1 + 1)"
      using floor_log2_bounds(2) [OF N, of 1] by simp
    finally have "(2::real) powi 53 < 2 powi (floor_log2 N 1 + 1)" by (simp add: two_powi_nat)
    then have "53 < floor_log2 N 1 + 1" by (rule two_powi_less_D)
    then have e1: "1 \<le> e" by (simp add: e)
    define d0 where "d0 = s * 2 ^ nat e"
    have v: "real_of_int s * 2 powi e = real_of_int d0" using e1 by (simp add: d0_def two_powi_nat)
    define m where "m = real_of_int N / real_of_int 1 * 2 powi (- e)"
    note p = round64_pos [OF N, of 1, folded e, unfolded r(1), folded m_def]
    have "real_of_int (2 ^ 52) \<le> m" using p(2) by simp
    then have s52: "2 ^ 52 \<le> s" using p(4) [of "2 ^ 52"] p(1) by simp
    have "(2::int) ^ 1 \<le> 2 ^ nat e" using e1 by (intro power_increasing) simp_all
    then have "2 ^ 52 * 2 \<le> s * 2 ^ nat e" using s52 by (intro mult_mono) simp_all
    then have d53: "2 ^ 53 \<le> d0" by (simp add: d0_def)
    then have "0 < d0" by simp
    with f r(2) v d53 big that [of s e d0] show thesis by (simp add: N_def)
  qed
qed

lemma totalPages_zero:
  assumes "0 < sint ps"
  shows "totalPages 0 ps = 0"
proof -
  obtain s e d0 where f: "float64 ps = Finite s e" "0 < s"
    using float64_value [OF assms] by blast
  have z: "float64 0 = Finite 0 0" by (simp add: float64_def round64_def)
  have "fdiv (Finite 0 0) (Finite s e) = Finite 0 0" using f(2) by (simp add: round64_def)
  then show ?thesis by (simp add: totalPages_def z f(1) Let_def)
qed



lemma sint_NextPage:
  "sint page \<noteq> 2 ^ 63 - 1 \<Longrightarrow> sint (NextPage (pagination ps totalCount page)) = sint page + 1"
proof -
  assume "sint page \<noteq> 2 ^ 63 - 1"
  moreover have "sint page < 2 ^ 63" "- (2 ^ 63) \<le> sint page"
    using sint_lt [of page] sint_ge [of page] by simp_all
  ultimately show ?thesis
    by (simp add: pagination_def sint_word_ariths signed_take_bit_int_eq_self)
qed




text \<open>
  Claim C10. With no matching row (total count 0), page size 5 and page 1, the
  computation yields 0 total pages, no previous and no next page; for every page the
  total is 0 pages, and has-next holds only for a page below 0, which the handler never
  passes.
\<close>

theorem pagination_empty:
  "pagination pageSize 0 1 =
     \<lparr>CurrentPage = 1, TotalPages = 0, HasPrev = False, HasNext = False,
      PrevPage = 0, NextPage = 2\<rparr>
   \<and> TotalPages (pagination pageSize 0 page) = 0
   \<and> HasNext (pagination pageSize 0 page) = (sint page < 0)"
proof -
  have pages: "totalPages 0 pageSize = 0"
    by (rule totalPages_zero) (simp add: pageSize_def)
  show ?thesis
    unfolding pagination_def pages by (simp add: word_sless_alt)
qed

subsection \<open>Statement texts as the store reads them\<close>

lemma parse_where_whereStr:
  "parse_where (whereStr search f) =
     Some ((if search \<noteq> [] then [TitleLike] else [])
           @ (if f = ''on_sale'' then [HasSalesIs True]
              else if f = ''not_on_sale'' then [HasSalesIs False] else []), [])"
  by (simp add: whereStr_def whereClauses_def parse_where_def parse_cond_def)

lemma where_pred_eq:
  "where_pred search f =
     Some (\<lambda>r. (search \<noteq> [] \<longrightarrow> sql_like (''%'' @ search @ ''%'') (Title r))
              \<and> (f = ''on_sale'' \<longrightarrow> HasSales r)
              \<and> (f = ''not_on_sale'' \<longrightarrow> \<not> HasSales r))"
  by (auto simp add: where_pred_def parse_where_whereStr whereArgs_def)

lemma parse_in_list_Repeat: "parse_in_list (Repeat '',?'' n @ '')'') = Some n"
  by (induction n) (simp_all add: Repeat_def)

lemma parse_salesStatusQuery:
  "parse_stmt (salesStatusQuery ids) = Some (UpdateSalesIn (Suc (length ids - 1)))"
  by (simp add: parse_stmt_def salesStatusQuery_def parse_in_list_Repeat)

lemma parse_deleteQuery:
  "parse_stmt (deleteQuery ids) = Some (DeleteIn (Suc (length ids - 1)))"
  by (simp add: parse_stmt_def deleteQuery_def parse_in_list_Repeat)

lemma bind_ids_map: "bind_ids (map VInt ids) = Some ids"
  by (induction ids) simp_all

lemma placeholders_Repeat: "placeholders (Repeat '',?'' n) = n"
  by (induction n) (simp_all add: Repeat_def placeholders_def)

lemma placeholders_append: "placeholders (a @ b) = placeholders a + placeholders b"
  by (simp add: placeholders_def)

lemma parse_countQuery:
  "parse_stmt (countQuery search f) =
     Some (SelectCount ((if search \<noteq> [] then [TitleLike] else [])
           @ (if f = ''on_sale'' then [HasSalesIs True]
              else if f = ''not_on_sale'' then [HasSalesIs False] else [])))"
  by (simp add: parse_stmt_def countQuery_def whereStr_def whereClauses_def parse_where_def parse_cond_def)

lemma parse_listQuery:
  "parse_stmt (listQuery search f) =
     Some (SelectPage ((if search \<noteq> [] then [TitleLike] else [])
           @ (if f = ''on_sale'' then [HasSalesIs True]
              else if f = ''not_on_sale'' then [HasSalesIs False] else [])))"
  by (simp add: parse_stmt_def listQuery_def whereStr_def whereClauses_def parse_where_def parse_cond_def)

subsection \<open>Calls on the store\<close>

lemma ExecContext_frame:
  "issued (fst (ExecContext db q args)) = issued db @ [(q, args)]"
  "faults (fst (ExecContext db q args)) = tl (faults db)"
  "pending (fst (ExecContext db q args)) = pending db"
  by (auto simp: ExecContext_def next_fault_def issue_def split: list.splits option.splits sum.splits)

lemma ExecContext_fault:
  "faults db = Some e # fs \<Longrightarrow>
     snd (ExecContext db q args) = Inl e \<and> committed (fst (ExecContext db q args)) = committed db"
  by (simp add: ExecContext_def next_fault_def issue_def)

lemma ExecContext_ok:
  assumes "answers (Suc 0) db" "compile_stmt q = Inr st" "exec_stmt st args (committed db) = Inr (t, out)"
  shows "snd (ExecContext db q args) = Inr out" "committed (fst (ExecContext db q args)) = t"
  using assms
  by (auto simp: ExecContext_def next_fault_def issue_def answers_def split: list.splits option.splits)

lemma ExecContext_err:
  assumes "answers (Suc 0) db" "compile_stmt q = Inr st" "exec_stmt st args (committed db) = Inl e"
  shows "snd (ExecContext db q args) = Inl e" "committed (fst (ExecContext db q args)) = committed db"
  using assms
  by (auto simp: ExecContext_def next_fault_def issue_def answers_def split: list.splits option.splits)

lemma ExecContext_refused:
  assumes "answers (Suc 0) db" "compile_stmt q = Inl e"
  shows "snd (ExecContext db q args) = Inl e" "committed (fst (ExecContext db q args)) = committed db"
  using assms
  by (auto simp: ExecContext_def next_fault_def issue_def answers_def split: list.splits option.splits)

lemma parse_simple:
  "parse_stmt ''SELECT id, title, has_sales FROM books WHERE id = ?'' = Some SelectById"
  "parse_stmt ''UPDATE books SET title = ?, has_sales = ? WHERE id = ?'' = Some UpdateById"
  "parse_stmt ''INSERT INTO books (title, has_sales) VALUES (?, ?)'' = Some InsertBook"
  by (simp_all add: parse_stmt_def)

lemma compile_simple:
  "compile_stmt ''SELECT id, title, has_sales FROM books WHERE id = ?'' = Inr SelectById"
  "compile_stmt ''UPDATE books SET title = ?, has_sales = ? WHERE id = ?'' = Inr UpdateById"
  "compile_stmt ''INSERT INTO books (title, has_sales) VALUES (?, ?)'' = Inr InsertBook"
  by (simp_all add: compile_stmt_def parse_simple SQLITE_MAX_VARIABLE_NUMBER_def)

text \<open>
  The store compiles the statement of \<open>N\<close> identifiers as long as its placeholders,
  \<open>N\<close> for the delete and \<open>N + 1\<close> for the update, are at most 32766.
\<close>

lemma compile_salesStatusQuery:
  assumes "ids \<noteq> []"
  shows "compile_stmt (salesStatusQuery ids) =
     (if length ids < 32766 then Inr (UpdateSalesIn (length ids)) else Inl ErrTooManyVariables)"
proof -
  from assms have "Suc (length ids - 1) = length ids" by (cases ids) simp_all
  then have "parse_stmt (salesStatusQuery ids) = Some (UpdateSalesIn (length ids))"
    using parse_salesStatusQuery [of ids] by simp
  then show ?thesis by (auto simp add: compile_stmt_def SQLITE_MAX_VARIABLE_NUMBER_def)
qed

lemma compile_deleteQuery:
  assumes "ids \<noteq> []"
  shows "compile_stmt (deleteQuery ids) =
     (if length ids \<le> 32766 then Inr (DeleteIn (length ids)) else Inl ErrTooManyVariables)"
proof -
  from assms have "Suc (length ids - 1) = length ids" by (cases ids) simp_all
  then have "parse_stmt (deleteQuery ids) = Some (DeleteIn (length ids))"
    using parse_deleteQuery [of ids] by simp
  then show ?thesis by (auto simp add: compile_stmt_def SQLITE_MAX_VARIABLE_NUMBER_def)
qed

lemma placeholders_deleteQuery: "ids \<noteq> [] \<Longrightarrow> placeholders (deleteQuery ids) = length ids"
proof -
  assume "ids \<noteq> []"
  then have n: "Suc (length ids - 1) = length ids" by (cases ids) simp_all
  have a: "placeholders ''DELETE FROM books WHERE id IN (?'' = 1" and b: "placeholders '')'' = 0"
    by (simp_all add: placeholders_def)
  have "placeholders (deleteQuery ids) = 1 + (length ids - 1)"
    unfolding deleteQuery_def placeholders_append placeholders_Repeat a b by simp
  with n show ?thesis by simp
qed

lemma placeholders_salesStatusQuery:
  "ids \<noteq> [] \<Longrightarrow> placeholders (salesStatusQuery ids) = Suc (length ids)"
proof -
  assume "ids \<noteq> []"
  then have n: "Suc (length ids - 1) = length ids" by (cases ids) simp_all
  have a: "placeholders ''UPDATE books SET has_sales = ? WHERE id IN (?'' = 2"
    and b: "placeholders '')'' = 0"
    by (simp_all add: placeholders_def)
  have "placeholders (salesStatusQuery ids) = 2 + (length ids - 1)"
    unfolding salesStatusQuery_def placeholders_append placeholders_Repeat a b by simp
  with n show ?thesis by simp
qed

lemma in_list_text:
  "length ids' = length ids \<Longrightarrow> salesStatusQuery ids' = salesStatusQuery ids \<and> deleteQuery ids' = deleteQuery ids"
  by (simp add: salesStatusQuery_def deleteQuery_def)

lemma sales_status_effect:
  assumes "ids \<noteq> []" "answers (Suc 0) db" "length ids < 32766"
  shows "snd (BulkUpdateBooksSalesStatus db ids status) = None"
    "rows (committed (fst (BulkUpdateBooksSalesStatus db ids status))) =
       map (\<lambda>r. if ID r \<in> set ids then r\<lparr>HasSales := status\<rparr> else r) (rows (committed db))"
    "autoinc (committed (fst (BulkUpdateBooksSalesStatus db ids status))) = autoinc (committed db)"
proof -
  have p: "compile_stmt (salesStatusQuery ids) = Inr (UpdateSalesIn (length ids))"
    using assms(3) by (simp add: compile_salesStatusQuery [OF assms(1)])
  have e: "exec_stmt (UpdateSalesIn (length ids)) (salesStatusArgs ids status) (committed db) =
      Inr ((committed db)\<lparr>rows := map (\<lambda>r. if ID r \<in> set ids then r\<lparr>HasSales := status\<rparr> else r) (rows (committed db))\<rparr>,
           Changed (length (filter (\<lambda>r. ID r \<in> set ids) (rows (committed db)))) (autoinc (committed db)))"
    by (simp add: salesStatusArgs_def bind_ids_map)
  note ok = ExecContext_ok [OF assms(2) p e]
  show "snd (BulkUpdateBooksSalesStatus db ids status) = None"
    using assms(1) ok(1) by (auto simp add: BulkUpdateBooksSalesStatus_def split: prod.splits sum.splits)
  show "rows (committed (fst (BulkUpdateBooksSalesStatus db ids status))) =
       map (\<lambda>r. if ID r \<in> set ids then r\<lparr>HasSales := status\<rparr> else r) (rows (committed db))"
    using assms(1) ok(2) by (auto simp add: BulkUpdateBooksSalesStatus_def split: prod.splits sum.splits)
  show "autoinc (committed (fst (BulkUpdateBooksSalesStatus db ids status))) = autoinc (committed db)"
    using assms(1) ok(2) by (auto simp add: BulkUpdateBooksSalesStatus_def split: prod.splits sum.splits)
qed

lemma delete_effect:
  assumes "ids \<noteq> []" "answers (Suc 0) db" "length ids \<le> 32766"
  shows "snd (DeleteBooks db ids) = None"
    "rows (committed (fst (DeleteBooks db ids))) = filter (\<lambda>r. ID r \<notin> set ids) (rows (committed db))"
    "autoinc (committed (fst (DeleteBooks db ids))) = autoinc (committed db)"
proof -
  have p: "compile_stmt (deleteQuery ids) = Inr (DeleteIn (length ids))"
    using assms(3) by (simp add: compile_deleteQuery [OF assms(1)])
  have e: "exec_stmt (DeleteIn (length ids)) (deleteArgs ids) (committed db) =
      Inr ((committed db)\<lparr>rows := filter (\<lambda>r. ID r \<notin> set ids) (rows (committed db))\<rparr>,
           Changed (length (filter (\<lambda>r. ID r \<in> set ids) (rows (committed db)))) (autoinc (committed db)))"
    by (simp add: deleteArgs_def bind_ids_map)
  note ok = ExecContext_ok [OF assms(2) p e]
  show "snd (DeleteBooks db ids) = None"
    using assms(1) ok(1) by (auto simp add: DeleteBooks_def split: prod.splits sum.splits)
  show "rows (committed (fst (DeleteBooks db ids))) = filter (\<lambda>r. ID r \<notin> set ids) (rows (committed db))"
    using assms(1) ok(2) by (auto simp add: DeleteBooks_def split: prod.splits sum.splits)
  show "autoinc (committed (fst (DeleteBooks db ids))) = autoinc (committed db)"
    using assms(1) ok(2) by (auto simp add: DeleteBooks_def split: prod.splits sum.splits)
qed

lemma sales_status_refused:
  assumes "32766 \<le> length ids" "answers (Suc 0) db"
  shows "snd (BulkUpdateBooksSalesStatus db ids status) = Some ErrTooManyVariables"
    "committed (fst (BulkUpdateBooksSalesStatus db ids status)) = committed db"
proof -
  from assms(1) have ne: "ids \<noteq> []" by auto
  have p: "compile_stmt (salesStatusQuery ids) = Inl ErrTooManyVariables"
    using assms(1) by (simp add: compile_salesStatusQuery [OF ne])
  note no = ExecContext_refused [OF assms(2) p, of "salesStatusArgs ids status"]
  show "snd (BulkUpdateBooksSalesStatus db ids status) = Some ErrTooManyVariables"
    using ne no(1) by (auto simp add: BulkUpdateBooksSalesStatus_def split: prod.splits sum.splits)
  show "committed (fst (BulkUpdateBooksSalesStatus db ids status)) = committed db"
    using ne no(2) by (auto simp add: BulkUpdateBooksSalesStatus_def split: prod.splits sum.splits)
qed

lemma delete_refused:
  assumes "32766 < length ids" "answers (Suc 0) db"
  shows "snd (DeleteBooks db ids) = Some ErrTooManyVariables"
    "committed (fst (DeleteBooks db ids)) = committed db"
proof -
  from assms(1) have ne: "ids \<noteq> []" by auto
  have p: "compile_stmt (deleteQuery ids) = Inl ErrTooManyVariables"
    using assms(1) by (simp add: compile_deleteQuery [OF ne])
  note no = ExecContext_refused [OF assms(2) p, of "deleteArgs ids"]
  show "snd (DeleteBooks db ids) = Some ErrTooManyVariables"
    using ne no(1) by (auto simp add: DeleteBooks_def split: prod.splits sum.splits)
  show "committed (fst (DeleteBooks db ids)) = committed db"
    using ne no(2) by (auto simp add: DeleteBooks_def split: prod.splits sum.splits)
qed

lemma in_list_issued:
  assumes "ids \<noteq> []"
  shows "issued (fst (BulkUpdateBooksSalesStatus db ids status)) = issued db @ [(salesStatusQuery ids, VBool status # map VInt ids)]"
    "issued (fst (DeleteBooks db ids)) = issued db @ [(deleteQuery ids, map VInt ids)]"
  using assms ExecContext_frame(1) [of db "salesStatusQuery ids" "salesStatusArgs ids status"]
    ExecContext_frame(1) [of db "deleteQuery ids" "deleteArgs ids"]
  by (auto simp: BulkUpdateBooksSalesStatus_def DeleteBooks_def salesStatusArgs_def deleteArgs_def split: prod.splits sum.splits)

lemma answers_first_fault: "answers n db \<longleftrightarrow> first_fault (take n (faults db)) = None"
proof -
  have "list_all (\<lambda>f. f = None) fs \<longleftrightarrow> first_fault fs = None" for fs
    by (induction fs rule: first_fault.induct) simp_all
  then show ?thesis by (simp add: answers_def)
qed

lemma answers_2D:
  assumes "answers 2 db"
  shows "answers (Suc 0) db" and "faults db' = tl (faults db) \<Longrightarrow> answers (Suc 0) db'"
proof -
  show "answers (Suc 0) db" using assms by (cases "faults db") (simp_all add: answers_def)
  assume "faults db' = tl (faults db)"
  with assms show "answers (Suc 0) db'"
    by (cases "faults db"; cases "tl (faults db)") (auto simp add: answers_def)
qed

lemma update_book_ok:
  assumes "answers (Suc 0) db"
  shows "snd (UpdateBook db book) = None"
    "rows (committed (fst (UpdateBook db book))) =
       map (\<lambda>r. if ID r = ID book then r\<lparr>Title := Title book, HasSales := HasSales book\<rparr> else r)
         (rows (committed db))"
    "autoinc (committed (fst (UpdateBook db book))) = autoinc (committed db)"
proof -
  let ?q = "''UPDATE books SET title = ?, has_sales = ? WHERE id = ?''"
  let ?args = "[VText (Title book), VBool (HasSales book), VInt (ID book)]"
  have e: "exec_stmt UpdateById ?args (committed db) =
      Inr ((committed db)\<lparr>rows := map (\<lambda>r. if ID r = ID book then r\<lparr>Title := Title book, HasSales := HasSales book\<rparr> else r) (rows (committed db))\<rparr>,
           Changed (length (filter (\<lambda>r. ID r = ID book) (rows (committed db)))) (autoinc (committed db)))"
    by simp
  note ok = ExecContext_ok [OF assms compile_simple(2) e]
  show "snd (UpdateBook db book) = None"
    using ok(1) by (auto simp add: UpdateBook_def split: prod.splits sum.splits)
  show "rows (committed (fst (UpdateBook db book))) =
       map (\<lambda>r. if ID r = ID book then r\<lparr>Title := Title book, HasSales := HasSales book\<rparr> else r)
         (rows (committed db))"
    using ok(2) by (auto simp add: UpdateBook_def split: prod.splits sum.splits)
  show "autoinc (committed (fst (UpdateBook db book))) = autoinc (committed db)"
    using ok(2) by (auto simp add: UpdateBook_def split: prod.splits sum.splits)
qed

lemma update_no_match:
  "\<forall>r \<in> set rs. ID r \<noteq> i \<Longrightarrow> map (\<lambda>r. if ID r = i then r\<lparr>Title := ti, HasSales := hs\<rparr> else r) rs = rs"
  by (induction rs) simp_all

lemma max_rowid_ge:
  "r \<in> set rs \<Longrightarrow> \<exists>m. max_rowid rs = Some m \<and> ID r \<le> m"
  by (induction rs) (auto split: option.splits)

lemma new_rowid_fresh: "r \<in> set (rows t) \<Longrightarrow> ID r < new_rowid t"
  using max_rowid_ge [of r "rows t"] by (auto simp: new_rowid_def)

lemma new_rowid_pos: "0 \<le> autoinc t \<Longrightarrow> 0 < new_rowid t"
  by (simp add: new_rowid_def)

lemma ExecContext_cases:
  "ExecContext db q args = (db', Inr out) \<Longrightarrow>
     \<exists>st t. answers (Suc 0) db \<and> compile_stmt q = Inr st \<and> exec_stmt st args (committed db) = Inr (t, out)
        \<and> committed db' = t \<and> faults db' = tl (faults db) \<and> pending db' = pending db"
  by (auto simp: ExecContext_def next_fault_def issue_def answers_def split: list.splits option.splits sum.splits)

lemma create_book_result:
  assumes "CreateBook db book = (db1, Inr created)"
  shows "created = book\<lparr>ID := new_rowid (committed db)\<rparr>"
    "rows (committed db1) = rows (committed db) @ [\<lparr>ID = new_rowid (committed db), Title = Title book, HasSales = HasSales book\<rparr>]"
    "new_rowid (committed db) \<le> 2 ^ 63 - 1"
    "answers (Suc 0) db"
proof -
  let ?q = "''INSERT INTO books (title, has_sales) VALUES (?, ?)''"
  let ?args = "[VText (Title book), VBool (HasSales book)]"
  from assms obtain res where ex: "ExecContext db ?q ?args = (db1, Inr res)"
    and li: "LastInsertId res = Inr (ID created)" "created = book\<lparr>ID := ID created\<rparr>"
    by (auto simp: CreateBook_def split: prod.splits sum.splits)
  from ExecContext_cases [OF ex] obtain t where
    a: "answers (Suc 0) db" and e: "exec_stmt InsertBook ?args (committed db) = Inr (t, res)"
    and c: "committed db1 = t"
    by (auto simp: compile_simple)
  from e have r: "res = Changed 1 (new_rowid (committed db))"
    and t: "t = \<lparr>rows = rows (committed db) @ [\<lparr>ID = new_rowid (committed db), Title = Title book, HasSales = HasSales book\<rparr>], autoinc = new_rowid (committed db)\<rparr>"
    and b: "new_rowid (committed db) \<le> 2 ^ 63 - 1"
    by (auto split: if_splits)
  from r li show "created = book\<lparr>ID := new_rowid (committed db)\<rparr>" by simp
  from c t show "rows (committed db1) = rows (committed db) @ [\<lparr>ID = new_rowid (committed db), Title = Title book, HasSales = HasSales book\<rparr>]" by simp
  from b show "new_rowid (committed db) \<le> 2 ^ 63 - 1" .
  from a show "answers (Suc 0) db" .
qed

lemma get_book_ok:
  assumes "answers (Suc 0) db"
  shows "snd (GetBook db i) = (case filter (\<lambda>r. ID r = i) (rows (committed db)) of [] \<Rightarrow> Inl ErrNoRows | b # bs \<Rightarrow> Inr b)"
    "committed (fst (GetBook db i)) = committed db"
proof -
  have e: "exec_stmt SelectById [VInt i] (committed db) = Inr (committed db, Rows (filter (\<lambda>r. ID r = i) (rows (committed db))) None)"
    by simp
  note ok = ExecContext_ok [OF assms compile_simple(1) e]
  show "snd (GetBook db i) = (case filter (\<lambda>r. ID r = i) (rows (committed db)) of [] \<Rightarrow> Inl ErrNoRows | b # bs \<Rightarrow> Inr b)"
    using ok(1) by (auto simp add: GetBook_def QueryRowContext_def split: prod.splits sum.splits list.splits)
  show "committed (fst (GetBook db i)) = committed db"
    using ok(2) by (auto simp add: GetBook_def QueryRowContext_def split: prod.splits sum.splits list.splits)
qed

lemma get_created_book:
  assumes "CreateBook db book = (db1, Inr created)" "answers (Suc 0) db1"
  shows "snd (GetBook db1 (ID created)) = Inr \<lparr>ID = ID created, Title = Title book, HasSales = HasSales book\<rparr>"
proof -
  note c = create_book_result [OF assms(1)]
  have "filter (\<lambda>r. ID r = new_rowid (committed db)) (rows (committed db)) = []"
    by (fastforce simp: filter_empty_conv dest: new_rowid_fresh)
  then show ?thesis
    using get_book_ok(1) [OF assms(2), of "ID created"] c(1,2) by simp
qed

lemma first_fault_take_add:
  "first_fault (take (a + b) fs) =
     (case first_fault (take a fs) of Some e \<Rightarrow> Some e | None \<Rightarrow> first_fault (take b (drop a fs)))"
proof (induction a arbitrary: fs)
  case 0
  then show ?case by simp
next
  case (Suc a)
  show ?case
  proof (cases fs)
    case Nil
    then show ?thesis by simp
  next
    case (Cons f fs')
    show ?thesis unfolding Cons using Suc [of fs'] by (cases f) (simp_all split: option.splits)
  qed
qed

lemma first_fault_take1:
  "first_fault (take (Suc 0) fs) = (case fs of [] \<Rightarrow> None | f # fs' \<Rightarrow> f)"
  by (cases fs; cases "hd fs") auto

lemma next_fault_eq:
  "next_fault db = (first_fault (take (Suc 0) (faults db)), db\<lparr>faults := tl (faults db)\<rparr>)"
  by (cases "faults db"; cases "hd (faults db)") (auto simp: next_fault_def)

lemma bind_conds_append:
  "bind_conds cs args = Some (p, rest) \<Longrightarrow> bind_conds cs (args @ extra) = Some (p, rest @ extra)"
  by (induction cs args arbitrary: p rest rule: bind_conds.induct)
     (auto split: option.splits)

lemma list_ex_const: "list_ex (\<lambda>r. c) xs \<longleftrightarrow> c \<and> xs \<noteq> []"
  by (induction xs) auto

lemma rows_scanned_Nil: "rows_scanned p k [] = []"
  by (cases k) simp_all

lemma page_scan_Nil: "page_scan p limit offset [] = []"
  by (simp add: page_scan_def rows_scanned_Nil)

text \<open>
  The search pattern is the search text and two \<open>%\<close>. It is the first clause of the
  \<open>WHERE\<close>, so every row the scan visits calls \<open>LIKE\<close> with it: the call is refused
  on every row when the search text has more than 49998 bytes, and on none otherwise.
\<close>

lemma like_raises_where:
  "like_raises ((if s \<noteq> [] then [TitleLike] else [])
           @ (if f = ''on_sale'' then [HasSalesIs True]
              else if f = ''not_on_sale'' then [HasSalesIs False] else []))
     (whereArgs s @ extra) r \<longleftrightarrow> 49998 < length s"
  by (auto simp add: whereArgs_def SQLITE_MAX_LIKE_PATTERN_LENGTH_def)

lemma where_pred_bind:
  obtains p cs where "where_pred s f = Some p" "parse_stmt (countQuery s f) = Some (SelectCount cs)"
    "parse_stmt (listQuery s f) = Some (SelectPage cs)" "bind_conds cs (whereArgs s) = Some (p, [])"
    "compile_stmt (countQuery s f) = Inr (SelectCount cs)"
    "compile_stmt (listQuery s f) = Inr (SelectPage cs)"
    "\<And>extra. like_raises cs (whereArgs s @ extra) = (\<lambda>r. 49998 < length s)"
proof -
  let ?cs = "(if s \<noteq> [] then [TitleLike] else [])
           @ (if f = ''on_sale'' then [HasSalesIs True]
              else if f = ''not_on_sale'' then [HasSalesIs False] else [])"
  have "\<exists>p. bind_conds ?cs (whereArgs s) = Some (p, [])"
    by (simp add: whereArgs_def)
  then obtain p where b: "bind_conds ?cs (whereArgs s) = Some (p, [])" ..
  then have w: "where_pred s f = Some p"
    by (simp add: where_pred_def parse_where_whereStr)
  have cc: "compile_stmt (countQuery s f) = Inr (SelectCount ?cs)"
    by (simp add: compile_stmt_def parse_countQuery SQLITE_MAX_VARIABLE_NUMBER_def)
  have cl: "compile_stmt (listQuery s f) = Inr (SelectPage ?cs)"
    by (simp add: compile_stmt_def parse_listQuery SQLITE_MAX_VARIABLE_NUMBER_def)
  have lr: "like_raises ?cs (whereArgs s @ extra) = (\<lambda>r. 49998 < length s)" for extra
    by (rule ext) (rule like_raises_where)
  show thesis
    by (rule that [OF w parse_countQuery parse_listQuery b cc cl lr])
qed

text \<open>
  What \<^verbatim>\<open>ListBooks\<close> returns. With a search text of at most 49998 bytes, or on an
  empty table, it is the first failure of the two calls, and the page and the count
  if there is none. With a longer search text on a table that has a row, the count
  query is refused by \<open>LIKE\<close> unless the call has failed before.
\<close>

lemma ListBooks_result:
  assumes "where_pred s f = Some p"
  shows "length s \<le> 49998 \<or> rows (committed db) = [] \<Longrightarrow>
     snd (ListBooks db limit offset s f) =
     (case first_fault (take 2 (faults db)) of
        Some e \<Rightarrow> Inl e
      | None \<Rightarrow> Inr \<lparr>Books = sql_limit limit offset (sort_key ID (filter p (rows (committed db)))),
                     TotalCount = int (length (filter p (rows (committed db))))\<rparr>)"
    and "49998 < length s \<Longrightarrow> rows (committed db) \<noteq> [] \<Longrightarrow>
     snd (ListBooks db limit offset s f) =
     (case first_fault (take (Suc 0) (faults db)) of
        Some e \<Rightarrow> Inl e
      | None \<Rightarrow> Inl ErrLikeTooComplex)"
    and "committed (fst (ListBooks db limit offset s f)) = committed db"
proof -
  obtain p' cs where w: "where_pred s f = Some p'"
    and b: "bind_conds cs (whereArgs s) = Some (p', [])"
    and pc: "compile_stmt (countQuery s f) = Inr (SelectCount cs)"
    and pl: "compile_stmt (listQuery s f) = Inr (SelectPage cs)"
    and lr: "\<And>extra. like_raises cs (whereArgs s @ extra) = (\<lambda>r. 49998 < length s)"
    using where_pred_bind [of s f] by metis
  from w assms have [simp]: "p' = p" by simp
  have lr0: "like_raises cs (whereArgs s) = (\<lambda>r. 49998 < length s)"
    using lr [of "[]"] by simp
  have ec: "exec_stmt (SelectCount cs) (whereArgs s) t =
      (if 49998 < length s \<and> rows t \<noteq> [] then Inl ErrLikeTooComplex
       else Inr (t, Count (int (length (filter p (rows t))))))" for t
    using b by (simp add: lr0 list_ex_const)
  have ep: "exec_stmt (SelectPage cs) (pagedArgs s limit offset) t =
      Inr (t, if 49998 < length s \<and> page_scan p limit offset (rows t) \<noteq> []
              then Rows (sql_limit limit offset
                     (filter p (takeWhile (\<lambda>r. \<not> 49998 < length s) (sort_key ID (rows t)))))
                     (Some ErrLikeTooComplex)
              else Rows (sql_limit limit offset (sort_key ID (filter p (rows t)))) None)" for t
    using bind_conds_append [OF b, of "[VInt limit, VInt offset]"]
    by (simp add: pagedArgs_def lr list_ex_const)
  have 2: "(2::nat) = Suc 0 + Suc 0" by simp
  {
    assume "length s \<le> 49998 \<or> rows (committed db) = []"
    then consider (short) "\<not> 49998 < length s" | (empty) "rows (committed db) = []" by auto
    then show "snd (ListBooks db limit offset s f) =
     (case first_fault (take 2 (faults db)) of
        Some e \<Rightarrow> Inl e
      | None \<Rightarrow> Inr \<lparr>Books = sql_limit limit offset (sort_key ID (filter p (rows (committed db)))),
                     TotalCount = int (length (filter p (rows (committed db))))\<rparr>)"
    proof cases
      case short
      then show ?thesis
        unfolding 2 first_fault_take_add
        by (simp add: ListBooks_def QueryRowContext_def QueryContext_def ExecContext_def next_fault_eq
            issue_def pc pl ec ep first_fault_take1 drop_Suc del: exec_stmt.simps
            split: option.splits list.splits)
    next
      case empty
      then show ?thesis
        unfolding 2 first_fault_take_add
        by (simp add: ListBooks_def QueryRowContext_def QueryContext_def ExecContext_def next_fault_eq
            issue_def pc pl ec ep first_fault_take1 drop_Suc page_scan_Nil del: exec_stmt.simps
            split: option.splits list.splits)
    qed
  }
  {
    assume "49998 < length s" "rows (committed db) \<noteq> []"
    then show "snd (ListBooks db limit offset s f) =
     (case first_fault (take (Suc 0) (faults db)) of
        Some e \<Rightarrow> Inl e
      | None \<Rightarrow> Inl ErrLikeTooComplex)"
      by (simp add: ListBooks_def QueryRowContext_def QueryContext_def ExecContext_def next_fault_eq
          issue_def pc pl ec first_fault_take1 del: exec_stmt.simps
          split: option.splits list.splits)
  }
  show "committed (fst (ListBooks db limit offset s f)) = committed db"
    by (simp add: ListBooks_def QueryRowContext_def QueryContext_def ExecContext_def next_fault_eq
        issue_def pc pl ec ep first_fault_take1 del: exec_stmt.simps split: option.splits list.splits)
qed

subsection \<open>The transaction of the bulk edit\<close>

lemma stmt_ExecContext_update:
  assumes "pending db = Some w"
  shows "stmt_ExecContext db (q, UpdateById) [VText ti, VBool hs, VInt i] =
     (case first_fault (take (Suc 0) (faults db)) of
        Some e \<Rightarrow> (db\<lparr>issued := issued db @ [(q, [VText ti, VBool hs, VInt i])], faults := tl (faults db)\<rparr>, Inl e)
      | None \<Rightarrow>
          (db\<lparr>issued := issued db @ [(q, [VText ti, VBool hs, VInt i])], faults := tl (faults db),
              pending := Some (w\<lparr>rows := map (\<lambda>r. if ID r = i then r\<lparr>Title := ti, HasSales := hs\<rparr> else r) (rows w)\<rparr>)\<rparr>,
           Inr (Changed (length (filter (\<lambda>r. ID r = i) (rows w))) (autoinc w))))"
  using assms by (simp add: stmt_ExecContext_def next_fault_eq issue_def split: option.splits)

lemma exec_books_run:
  assumes "pending db = Some w"
  shows "snd (exec_books db (q, UpdateById) bs) = first_fault (take (length bs) (faults db))
    \<and> committed (fst (exec_books db (q, UpdateById) bs)) = committed db
    \<and> (first_fault (take (length bs) (faults db)) = None \<longrightarrow>
         pending (fst (exec_books db (q, UpdateById) bs)) =
           Some (w\<lparr>rows := foldl (\<lambda>rs b. map (\<lambda>r. if ID r = ID b then r\<lparr>Title := Title b, HasSales := HasSales b\<rparr> else r) rs) (rows w) bs\<rparr>)
         \<and> faults (fst (exec_books db (q, UpdateById) bs)) = drop (length bs) (faults db))"
  using assms
proof (induction bs arbitrary: db w)
  case Nil
  then show ?case by simp
next
  case (Cons b bs)
  let ?args = "[VText (Title b), VBool (HasSales b), VInt (ID b)]"
  show ?case
  proof (cases "first_fault (take (Suc 0) (faults db))")
    case (Some e)
    then have "first_fault (take (length (b # bs)) (faults db)) = Some e"
      using first_fault_take_add [of "Suc 0" "length bs" "faults db"] by simp
    with Some Cons.prems show ?thesis
      by (simp add: stmt_ExecContext_update)
  next
    case None
    let ?w' = "w\<lparr>rows := map (\<lambda>r. if ID r = ID b then r\<lparr>Title := Title b, HasSales := HasSales b\<rparr> else r) (rows w)\<rparr>"
    let ?db' = "db\<lparr>issued := issued db @ [(q, ?args)], faults := tl (faults db), pending := Some ?w'\<rparr>"
    have step: "exec_books db (q, UpdateById) (b # bs) = exec_books ?db' (q, UpdateById) bs"
      using None Cons.prems by (simp add: stmt_ExecContext_update)
    have ff: "first_fault (take (length (b # bs)) (faults db)) = first_fault (take (length bs) (faults ?db'))"
      using None first_fault_take_add [of "Suc 0" "length bs" "faults db"] by (simp add: drop_Suc)
    have p: "pending ?db' = Some ?w'" by simp
    from Cons.IH [OF p] show ?thesis
      unfolding step ff by (simp add: drop_Suc)
  qed
qed

lemma BeginTx_eq:
  "BeginTx db =
     (case first_fault (take (Suc 0) (faults db)) of
        Some e \<Rightarrow> (db\<lparr>faults := tl (faults db)\<rparr>, Inl e)
      | None \<Rightarrow> (db\<lparr>faults := tl (faults db), pending := Some (committed db)\<rparr>, Inr ()))"
  by (simp add: BeginTx_def next_fault_eq split: option.splits)

lemma PrepareContext_update:
  "PrepareContext db ''UPDATE books SET title = ?, has_sales = ? WHERE id = ?'' =
     (case first_fault (take (Suc 0) (faults db)) of
        Some e \<Rightarrow> (db\<lparr>faults := tl (faults db)\<rparr>, Inl e)
      | None \<Rightarrow> (db\<lparr>faults := tl (faults db)\<rparr>,
                  Inr (''UPDATE books SET title = ?, has_sales = ? WHERE id = ?'', UpdateById)))"
  by (simp add: PrepareContext_def next_fault_eq compile_simple split: option.splits)

lemma Commit_eq:
  "pending db = Some w \<Longrightarrow> Commit db =
     (case first_fault (take (Suc 0) (faults db)) of
        Some e \<Rightarrow> (db\<lparr>faults := tl (faults db), pending := None\<rparr>, Some e)
      | None \<Rightarrow> (db\<lparr>faults := tl (faults db), committed := w, pending := None\<rparr>, None))"
  by (simp add: Commit_def next_fault_eq split: option.splits)

lemma Rollback_frame:
  "committed (fst (Rollback db)) = committed db" "pending (fst (Rollback db)) = None"
  by (simp_all add: Rollback_def split: option.splits)

lemma BulkUpdateBooks_tx_run:
  assumes "pending db = Some w"
  shows "snd (BulkUpdateBooks_tx db bs) = first_fault (take (length bs + 2) (faults db))
    \<and> committed (fst (BulkUpdateBooks_tx db bs)) =
        (if first_fault (take (length bs + 2) (faults db)) = None
         then w\<lparr>rows := foldl (\<lambda>rs b. map (\<lambda>r. if ID r = ID b then r\<lparr>Title := Title b, HasSales := HasSales b\<rparr> else r) rs) (rows w) bs\<rparr>
         else committed db)"
proof -
  let ?q = "''UPDATE books SET title = ?, has_sales = ? WHERE id = ?''"
  let ?n = "length bs"
  have split3: "?n + 2 = Suc 0 + (?n + Suc 0)" by simp
  have ff: "first_fault (take (?n + 2) (faults db)) =
     (case first_fault (take (Suc 0) (faults db)) of Some e \<Rightarrow> Some e
      | None \<Rightarrow> (case first_fault (take ?n (tl (faults db))) of Some e \<Rightarrow> Some e
          | None \<Rightarrow> first_fault (take (Suc 0) (drop ?n (tl (faults db))))))"
    unfolding split3 first_fault_take_add by (simp add: drop_Suc split: option.splits)
  show ?thesis
  proof (cases "first_fault (take (Suc 0) (faults db))")
    case (Some e)
    then show ?thesis unfolding ff by (simp add: BulkUpdateBooks_tx_def PrepareContext_update)
  next
    case None
    let ?db1 = "db\<lparr>faults := tl (faults db)\<rparr>"
    have p1: "pending ?db1 = Some w" using assms by simp
    note run = exec_books_run [OF p1, of ?q bs]
    obtain db2 r where eb: "exec_books ?db1 (?q, UpdateById) bs = (db2, r)" by (cases "exec_books ?db1 (?q, UpdateById) bs")
    from run eb have r: "r = first_fault (take ?n (tl (faults db)))" and c2: "committed db2 = committed db"
      by simp_all
    show ?thesis
    proof (cases r)
      case (Some e)
      with r have rf: "first_fault (take ?n (tl (faults db))) = Some e" by simp
      from None rf eb c2 Some show ?thesis unfolding ff
        by (simp add: BulkUpdateBooks_tx_def PrepareContext_update)
    next
      case rNone: None
      with r have rf: "first_fault (take ?n (tl (faults db))) = None" by simp
      with run eb have p2: "pending db2 = Some (w\<lparr>rows := foldl (\<lambda>rs b. map (\<lambda>r. if ID r = ID b then r\<lparr>Title := Title b, HasSales := HasSales b\<rparr> else r) rs) (rows w) bs\<rparr>)"
        and f2: "faults db2 = drop ?n (tl (faults db))"
        by simp_all
      from None rf eb c2 f2 rNone show ?thesis unfolding ff
        by (simp add: BulkUpdateBooks_tx_def PrepareContext_update Commit_eq [OF p2] split: option.splits)
    qed
  qed
qed

lemma BulkUpdateBooks_run:
  "snd (BulkUpdateBooks db bs) = first_fault (take (length bs + 3) (faults db))"
  "committed (fst (BulkUpdateBooks db bs)) =
        (if first_fault (take (length bs + 3) (faults db)) = None
         then (committed db)\<lparr>rows := foldl (\<lambda>rs b. map (\<lambda>r. if ID r = ID b then r\<lparr>Title := Title b, HasSales := HasSales b\<rparr> else r) rs) (rows (committed db)) bs\<rparr>
         else committed db)"
  "pending db = None \<Longrightarrow> pending (fst (BulkUpdateBooks db bs)) = None"
proof -
  have s: "length bs + 3 = Suc 0 + (length bs + 2)" by simp
  have ff: "first_fault (take (length bs + 3) (faults db)) =
     (case first_fault (take (Suc 0) (faults db)) of Some e \<Rightarrow> Some e
      | None \<Rightarrow> first_fault (take (length bs + 2) (tl (faults db))))"
    unfolding s first_fault_take_add by (simp add: drop_Suc split: option.splits)
  let ?db1 = "db\<lparr>faults := tl (faults db), pending := Some (committed db)\<rparr>"
  have p: "pending ?db1 = Some (committed db)" by simp
  obtain db2 r where tx: "BulkUpdateBooks_tx ?db1 bs = (db2, r)"
    by (cases "BulkUpdateBooks_tx ?db1 bs")
  from BulkUpdateBooks_tx_run [OF p, of bs] tx
  have r: "r = first_fault (take (length bs + 2) (tl (faults db)))"
    and c: "committed db2 =
        (if first_fault (take (length bs + 2) (tl (faults db))) = None
         then (committed db)\<lparr>rows := foldl (\<lambda>rs b. map (\<lambda>r. if ID r = ID b then r\<lparr>Title := Title b, HasSales := HasSales b\<rparr> else r) rs) (rows (committed db)) bs\<rparr>
         else committed db)"
    by simp_all
  show "snd (BulkUpdateBooks db bs) = first_fault (take (length bs + 3) (faults db))"
    unfolding ff BulkUpdateBooks_def BeginTx_eq
    by (cases "first_fault (take (Suc 0) (faults db))") (simp_all add: tx r)
  show "committed (fst (BulkUpdateBooks db bs)) =
        (if first_fault (take (length bs + 3) (faults db)) = None
         then (committed db)\<lparr>rows := foldl (\<lambda>rs b. map (\<lambda>r. if ID r = ID b then r\<lparr>Title := Title b, HasSales := HasSales b\<rparr> else r) rs) (rows (committed db)) bs\<rparr>
         else committed db)"
    unfolding ff BulkUpdateBooks_def BeginTx_eq
    by (cases "first_fault (take (Suc 0) (faults db))") (simp_all add: tx Rollback_frame c)
  show "pending db = None \<Longrightarrow> pending (fst (BulkUpdateBooks db bs)) = None"
    unfolding BulkUpdateBooks_def BeginTx_eq
    by (cases "first_fault (take (Suc 0) (faults db))") (simp_all add: tx Rollback_frame)
qed

subsection \<open>The pattern match of the search\<close>

text \<open>
  A search text without \<open>%\<close> and \<open>_\<close>, wrapped in \<open>%\<close> on both sides, matches
  exactly the titles that contain it, letters compared without regard to case. A
  \<open>%\<close> or \<open>_\<close> inside the search text is not escaped by the repository and keeps
  its meaning as a wildcard.
\<close>

lemma like_percent_iff:
  "sql_like (CHR ''%'' # ps) t \<longleftrightarrow> (\<exists>u r. t = u @ r \<and> sql_like ps r)"
proof (induction t)
  case Nil
  then show ?case by simp
next
  case (Cons c cs)
  show ?case
  proof
    assume "sql_like (CHR ''%'' # ps) (c # cs)"
    then consider "sql_like ps (c # cs)" | "sql_like (CHR ''%'' # ps) cs" by auto
    then show "\<exists>u r. c # cs = u @ r \<and> sql_like ps r"
    proof cases
      case 1
      then have "c # cs = [] @ (c # cs) \<and> sql_like ps (c # cs)" by simp
      then show ?thesis by blast
    next
      case 2
      with Cons obtain u r where "cs = u @ r" "sql_like ps r" by blast
      then have "c # cs = (c # u) @ r \<and> sql_like ps r" by simp
      then show ?thesis by blast
    qed
  next
    assume "\<exists>u r. c # cs = u @ r \<and> sql_like ps r"
    then obtain u r where ur: "c # cs = u @ r" "sql_like ps r" by blast
    show "sql_like (CHR ''%'' # ps) (c # cs)"
    proof (cases u)
      case Nil
      with ur have "sql_like ps (c # cs)" by simp
      then show ?thesis by simp
    next
      case (Cons a u')
      with ur have "cs = u' @ r" by simp
      with ur(2) Cons.IH have "sql_like (CHR ''%'' # ps) cs" by blast
      then show ?thesis by simp
    qed
  qed
qed

lemma like_literal_iff:
  assumes "CHR ''%'' \<notin> set s" "CHR ''_'' \<notin> set s"
  shows "sql_like (s @ ps) t \<longleftrightarrow>
     (\<exists>w r. t = w @ r \<and> map ascii_lower w = map ascii_lower s \<and> sql_like ps r)"
  using assms
proof (induction s arbitrary: t)
  case Nil
  then show ?case by simp
next
  case (Cons a s)
  then have a: "a \<noteq> CHR ''%''" "a \<noteq> CHR ''_''" and s: "CHR ''%'' \<notin> set s" "CHR ''_'' \<notin> set s"
    by auto
  show ?case
  proof (cases t)
    case Nil
    with a show ?thesis by simp
  next
    case (Cons c cs)
    have "sql_like ((a # s) @ ps) (c # cs) \<longleftrightarrow> ascii_lower a = ascii_lower c \<and> sql_like (s @ ps) cs"
      using a by simp
    also have "\<dots> \<longleftrightarrow> ascii_lower a = ascii_lower c \<and>
        (\<exists>w r. cs = w @ r \<and> map ascii_lower w = map ascii_lower s \<and> sql_like ps r)"
      using Cons.IH [OF s] by simp
    also have "\<dots> \<longleftrightarrow> (\<exists>w r. c # cs = w @ r \<and> map ascii_lower w = map ascii_lower (a # s) \<and> sql_like ps r)"
    proof
      assume "ascii_lower a = ascii_lower c \<and>
        (\<exists>w r. cs = w @ r \<and> map ascii_lower w = map ascii_lower s \<and> sql_like ps r)"
      then obtain w r where "ascii_lower a = ascii_lower c" "cs = w @ r"
        "map ascii_lower w = map ascii_lower s" "sql_like ps r" by blast
      then have "c # cs = (c # w) @ r \<and> map ascii_lower (c # w) = map ascii_lower (a # s) \<and> sql_like ps r"
        by simp
      then show "\<exists>w r. c # cs = w @ r \<and> map ascii_lower w = map ascii_lower (a # s) \<and> sql_like ps r"
        by blast
    next
      assume "\<exists>w r. c # cs = w @ r \<and> map ascii_lower w = map ascii_lower (a # s) \<and> sql_like ps r"
      then obtain w r where wr: "c # cs = w @ r" "map ascii_lower w = map ascii_lower (a # s)" "sql_like ps r"
        by blast
      from wr(2) obtain c' w' where w: "w = c' # w'" by (cases w) auto
      with wr have "c' = c" "cs = w' @ r" "ascii_lower c' = ascii_lower a" "map ascii_lower w' = map ascii_lower s"
        by auto
      with wr(3) show "ascii_lower a = ascii_lower c \<and>
        (\<exists>w r. cs = w @ r \<and> map ascii_lower w = map ascii_lower s \<and> sql_like ps r)" by auto
    qed
    finally show ?thesis using Cons by simp
  qed
qed

lemma like_contains:
  assumes "CHR ''%'' \<notin> set s" "CHR ''_'' \<notin> set s"
  shows "sql_like (''%'' @ s @ ''%'') t \<longleftrightarrow>
     (\<exists>u w v. t = u @ w @ v \<and> map ascii_lower w = map ascii_lower s)"
proof -
  have all: "sql_like ''%'' v" for v
    using like_percent_iff [of "[]" v] by simp
  have "sql_like (''%'' @ s @ ''%'') t \<longleftrightarrow> (\<exists>u r. t = u @ r \<and> sql_like (s @ ''%'') r)"
    using like_percent_iff [of "s @ ''%''" t] by simp
  also have "\<dots> \<longleftrightarrow> (\<exists>u r. t = u @ r \<and> (\<exists>w v. r = w @ v \<and> map ascii_lower w = map ascii_lower s))"
    using like_literal_iff [OF assms, of "''%''"] all by simp
  also have "\<dots> \<longleftrightarrow> (\<exists>u w v. t = u @ w @ v \<and> map ascii_lower w = map ascii_lower s)"
    by blast
  finally show ?thesis .
qed

lemma like_wildcard_in_search: "sql_like (''%'' @ ''_'' @ ''%'') ''Beta''"
  by simp

subsection \<open>Listing\<close>

lemma where_pred_total: "\<exists>p. where_pred s f = Some p"
  by (rule where_pred_bind [of s f]) blast

lemma ListBooks_issued:
  assumes "snd (ListBooks db limit offset s f) = Inr res"
  shows "issued (fst (ListBooks db limit offset s f)) =
     issued db @ [(''SELECT COUNT(*) FROM books'' @ whereStr s f, whereArgs s),
                  (''SELECT id, title, has_sales FROM books'' @ whereStr s f @ '' ORDER BY id LIMIT ? OFFSET ?'',
                   whereArgs s @ [VInt limit, VInt offset])]"
proof -
  let ?c = "ExecContext db (countQuery s f) (whereArgs s)"
  obtain db1 r1 where c: "?c = (db1, r1)" by (cases ?c)
  let ?l = "ExecContext db1 (listQuery s f) (pagedArgs s limit offset)"
  obtain db2 r2 where l: "?l = (db2, r2)" by (cases ?l)
  from assms c l have "fst (ListBooks db limit offset s f) = db2"
    by (auto simp: ListBooks_def QueryRowContext_def QueryContext_def split: sum.splits)
  moreover have "issued db1 = issued db @ [(countQuery s f, whereArgs s)]"
    using ExecContext_frame(1) [of db "countQuery s f" "whereArgs s"] c by simp
  moreover have "issued db2 = issued db1 @ [(listQuery s f, pagedArgs s limit offset)]"
    using ExecContext_frame(1) [of db1 "listQuery s f" "pagedArgs s limit offset"] l by simp
  ultimately show ?thesis
    by (simp add: countQuery_def listQuery_def pagedArgs_def)
qed

lemma length_sql_limit: "0 \<le> limit \<Longrightarrow> int (length (sql_limit limit offset xs)) \<le> limit"
  by (simp add: sql_limit_def)

lemma sql_limit_past_end: "0 \<le> limit \<Longrightarrow> int (length xs) \<le> offset \<Longrightarrow> sql_limit limit offset xs = []"
  by (simp add: sql_limit_def)

text \<open>
  Claim C2. For every search string and filter token, the count query and the page
  query of \<^verbatim>\<open>ListBooks\<close> carry the same \<open>WHERE\<close> text and the same arguments for it
  (the page query adds only limit and offset), and the store reads the same clauses
  from both. So whenever \<^verbatim>\<open>ListBooks\<close> returns a result, for every limit and offset,
  its total count is the number of rows that satisfy the predicate of the page, and
  the page is cut from those same rows in ascending identifier order.
\<close>

theorem list_books_total_count:
  "\<exists>p cs. where_pred s f = Some p
     \<and> parse_stmt (countQuery s f) = Some (SelectCount cs)
     \<and> parse_stmt (listQuery s f) = Some (SelectPage cs)
     \<and> (\<forall>db limit offset res.
          snd (ListBooks db limit offset s f) = Inr res \<longrightarrow>
            TotalCount res = int (length (filter p (rows (committed db))))
          \<and> Books res = sql_limit limit offset (sort_key ID (filter p (rows (committed db))))
          \<and> issued (fst (ListBooks db limit offset s f)) =
              issued db @
                [(''SELECT COUNT(*) FROM books'' @ whereStr s f, whereArgs s),
                 (''SELECT id, title, has_sales FROM books'' @ whereStr s f
                    @ '' ORDER BY id LIMIT ? OFFSET ?'',
                  whereArgs s @ [VInt limit, VInt offset])])"
proof -
  obtain p cs where w: "where_pred s f = Some p"
    and pc: "parse_stmt (countQuery s f) = Some (SelectCount cs)"
    and pl: "parse_stmt (listQuery s f) = Some (SelectPage cs)"
    by (rule where_pred_bind)
  have "TotalCount res = int (length (filter p (rows (committed db))))
      \<and> Books res = sql_limit limit offset (sort_key ID (filter p (rows (committed db))))"
    if r: "snd (ListBooks db limit offset s f) = Inr res" for db limit offset res
  proof (cases "length s \<le> 49998 \<or> rows (committed db) = []")
    case True
    from ListBooks_result(1) [OF w True, where limit = limit and offset = offset] r
    show ?thesis by (auto split: option.splits)
  next
    case False
    then have "49998 < length s" "rows (committed db) \<noteq> []" by simp_all
    from ListBooks_result(2) [OF w this, where limit = limit and offset = offset] r
    show ?thesis by (auto split: option.splits)
  qed
  with w pc pl ListBooks_issued show ?thesis by blast
qed

theorem list_books_total_count_witness:
  "\<exists>res. snd (ListBooks sample_db 5 5 [] ''all'') = Inr res \<and> TotalCount res = 7"
proof -
  from list_books_total_count [of "[]" "''all''"] obtain p where
    w: "where_pred [] ''all'' = Some p"
    and t: "\<And>db limit offset res. snd (ListBooks db limit offset [] ''all'') = Inr res \<Longrightarrow>
      TotalCount res = int (length (filter p (rows (committed db))))"
    by blast
  have "snd (ListBooks sample_db 5 5 [] ''all'') =
      Inr \<lparr>Books = sql_limit 5 5 (sort_key ID (filter p sample_books)),
           TotalCount = int (length (filter p sample_books))\<rparr>"
    using ListBooks_result(1) [OF w, where db = sample_db and limit = 5 and offset = 5]
    by (simp add: sample_db_def)
  moreover from w where_pred_eq [of "[]" "''all''"] have "p = (\<lambda>r. True)" by simp
  ultimately show ?thesis using t by (simp add: sample_books_def)
qed

text \<open>
  Claim C5, as the code has it. For a limit above 0 and an offset of at least 0, a
  page returned by \<^verbatim>\<open>ListBooks\<close> holds at most limit books. When the store answers
  the two queries and the search text has at most 49998 bytes (or the table is empty),
  \<^verbatim>\<open>ListBooks\<close> returns a result and not an error, with the number of matching rows
  as total count; and when the offset is at or past that number, the page is empty.
  The bound on the search text is needed: the pattern is the search text between two
  \<open>%\<close>, SQLite refuses a \<open>LIKE\<close> pattern of more than 50000 bytes, and with a
  longer search text on a table that has a row \<^verbatim>\<open>ListBooks\<close> returns that error,
  whatever the limit and the offset.
\<close>

theorem list_books_page:
  "0 < limit \<and> 0 \<le> offset \<longrightarrow>
     (\<forall>res. snd (ListBooks db limit offset s f) = Inr res \<longrightarrow> int (length (Books res)) \<le> limit)
   \<and> (\<exists>p. where_pred s f = Some p
        \<and> (answers 2 db \<and> (length s \<le> 49998 \<or> rows (committed db) = []) \<longrightarrow>
             (\<exists>res. snd (ListBooks db limit offset s f) = Inr res
                \<and> TotalCount res = int (length (filter p (rows (committed db))))
                \<and> (TotalCount res \<le> offset \<longrightarrow> Books res = [])))
        \<and> (answers 2 db \<and> 49998 < length s \<and> rows (committed db) \<noteq> [] \<longrightarrow>
             snd (ListBooks db limit offset s f) = Inl ErrLikeTooComplex))"
proof (intro impI)
  assume lo: "0 < limit \<and> 0 \<le> offset"
  obtain p where w: "where_pred s f = Some p" using where_pred_total by blast
  note r = ListBooks_result(1) [OF w, where db = db and limit = limit and offset = offset]
  note r' = ListBooks_result(2) [OF w, where db = db and limit = limit and offset = offset]
  let ?m = "filter p (rows (committed db))"
  have a: "int (length (Books res)) \<le> limit" if res: "snd (ListBooks db limit offset s f) = Inr res" for res
  proof (cases "length s \<le> 49998 \<or> rows (committed db) = []")
    case True
    from r [OF True] res have "Books res = sql_limit limit offset (sort_key ID ?m)"
      by (auto split: option.splits)
    with lo show ?thesis by (simp add: length_sql_limit)
  next
    case False
    then have "49998 < length s" "rows (committed db) \<noteq> []" by simp_all
    from r' [OF this] res show ?thesis by (auto split: option.splits)
  qed
  have b: "\<exists>res. snd (ListBooks db limit offset s f) = Inr res
                \<and> TotalCount res = int (length ?m)
                \<and> (TotalCount res \<le> offset \<longrightarrow> Books res = [])"
    if "answers 2 db" and c: "length s \<le> 49998 \<or> rows (committed db) = []"
  proof -
    from that have "first_fault (take 2 (faults db)) = None" by (simp add: answers_first_fault)
    with r [OF c] have "snd (ListBooks db limit offset s f) =
        Inr \<lparr>Books = sql_limit limit offset (sort_key ID ?m), TotalCount = int (length ?m)\<rparr>"
      by simp
    moreover have "int (length ?m) \<le> offset \<longrightarrow> sql_limit limit offset (sort_key ID ?m) = []"
      using lo by (simp add: sql_limit_past_end)
    ultimately show ?thesis by simp
  qed
  have c: "snd (ListBooks db limit offset s f) = Inl ErrLikeTooComplex"
    if "answers 2 db" and l: "49998 < length s" "rows (committed db) \<noteq> []"
  proof -
    from that(1) have "answers (Suc 0) db" by (rule answers_2D(1))
    then have "first_fault (take (Suc 0) (faults db)) = None" by (simp add: answers_first_fault)
    with r' [OF l] show ?thesis by simp
  qed
  from a b c w show "(\<forall>res. snd (ListBooks db limit offset s f) = Inr res \<longrightarrow> int (length (Books res)) \<le> limit)
   \<and> (\<exists>p. where_pred s f = Some p
        \<and> (answers 2 db \<and> (length s \<le> 49998 \<or> rows (committed db) = []) \<longrightarrow>
             (\<exists>res. snd (ListBooks db limit offset s f) = Inr res
                \<and> TotalCount res = int (length (filter p (rows (committed db))))
                \<and> (TotalCount res \<le> offset \<longrightarrow> Books res = [])))
        \<and> (answers 2 db \<and> 49998 < length s \<and> rows (committed db) \<noteq> [] \<longrightarrow>
             snd (ListBooks db limit offset s f) = Inl ErrLikeTooComplex))"
    by blast
qed

theorem list_books_page_witness:
  "(0::int) < 5 \<and> (0::int) \<le> 10 \<and> answers 2 sample_db \<and> length ([] :: string) \<le> 49998
   \<and> snd (ListBooks sample_db 5 10 [] ''all'') = Inr \<lparr>Books = [], TotalCount = 7\<rparr>"
proof -
  have a: "answers 2 sample_db" by (simp add: answers_def sample_db_def)
  from where_pred_eq [of "[]" "''all''"] have w: "where_pred [] ''all'' = Some (\<lambda>r. True)" by simp
  from list_books_page [of 5 10 sample_db "[]" "''all''"] a w
  obtain res where "snd (ListBooks sample_db 5 10 [] ''all'') = Inr res"
    "TotalCount res = int (length (filter (\<lambda>r. True) (rows (committed sample_db))))"
    "TotalCount res \<le> 10 \<longrightarrow> Books res = []"
    by auto
  then show ?thesis using a by (cases res) (simp add: sample_db_def sample_books_def)
qed

text \<open>
  Without the bound the call is an error. A search text of 49999 bytes on the sample
  data, with the handler's limit 5 and offset 0 and a store that answers: the pattern
  has 50001 bytes, the count query is refused at the first row, and \<^verbatim>\<open>ListBooks\<close>
  returns the error and no page.
\<close>

theorem list_books_page_counterexample:
  "(0::int) < 5 \<and> (0::int) \<le> 0 \<and> answers 2 sample_db
   \<and> length (replicate 49999 CHR ''a'') = 49999
   \<and> snd (ListBooks sample_db 5 0 (replicate 49999 CHR ''a'') ''all'') = Inl ErrLikeTooComplex
   \<and> (\<nexists>res. snd (ListBooks sample_db 5 0 (replicate 49999 CHR ''a'') ''all'') = Inr res)"
proof -
  define s where "s = replicate 49999 CHR ''a''"
  have l: "length s = 49999" unfolding s_def by (rule length_replicate)
  then have long: "49998 < length s" by simp
  have ne: "rows (committed sample_db) \<noteq> []" by (simp add: sample_db_def sample_books_def)
  have a: "answers 2 sample_db" by (simp add: answers_def sample_db_def)
  have f: "first_fault (take (Suc 0) (faults sample_db)) = None" by (simp add: sample_db_def)
  obtain p where w: "where_pred s ''all'' = Some p" using where_pred_total by blast
  from ListBooks_result(2) [OF w long ne, where limit = 5 and offset = 0] f
  have "snd (ListBooks sample_db 5 0 s ''all'') = Inl ErrLikeTooComplex" by simp
  with a l show ?thesis unfolding s_def [symmetric] by simp
qed

text \<open>
  Claim C7. \<^verbatim>\<open>DeleteBooks\<close> and \<^verbatim>\<open>BulkUpdateBooksSalesStatus\<close> (for either status)
  on an empty identifier list return no error and leave the database handle as it
  was: no statement is issued, no call reaches the store, no row changes.
\<close>

theorem empty_id_list_noop:
  "DeleteBooks db [] = (db, None) \<and> BulkUpdateBooksSalesStatus db [] status = (db, None)"
proof
  have empty: "length ([] :: int list) = 0" by simp
  show "DeleteBooks db [] = (db, None)"
    unfolding DeleteBooks_def using empty by simp
  show "BulkUpdateBooksSalesStatus db [] status = (db, None)"
    unfolding BulkUpdateBooksSalesStatus_def using empty by simp
qed

text \<open>
  Claim C8. When the store answers, \<^verbatim>\<open>UpdateBook\<close> returns no error; the row with
  the book's identifier gets the book's title and has-sales flag and every other row
  stays as it is; and when no row has that identifier the table is unchanged and the
  call still returns no error.
\<close>

theorem update_book_replaces:
  "answers 1 db \<longrightarrow>
     snd (UpdateBook db book) = None
   \<and> rows (committed (fst (UpdateBook db book))) =
       map (\<lambda>r. if ID r = ID book then r\<lparr>Title := Title book, HasSales := HasSales book\<rparr> else r)
         (rows (committed db))
   \<and> ((\<forall>r \<in> set (rows (committed db)). ID r \<noteq> ID book) \<longrightarrow>
        committed (fst (UpdateBook db book)) = committed db)"
proof (intro impI conjI)
  assume "answers 1 db"
  then have a: "answers (Suc 0) db" by simp
  note u = update_book_ok [OF a, of book]
  show "snd (UpdateBook db book) = None" by (rule u(1))
  show "rows (committed (fst (UpdateBook db book))) =
       map (\<lambda>r. if ID r = ID book then r\<lparr>Title := Title book, HasSales := HasSales book\<rparr> else r)
         (rows (committed db))" by (rule u(2))
  assume "\<forall>r \<in> set (rows (committed db)). ID r \<noteq> ID book"
  then have "rows (committed (fst (UpdateBook db book))) = rows (committed db)"
    using u(2) by (simp add: update_no_match)
  with u(3) show "committed (fst (UpdateBook db book)) = committed db" by simp
qed

theorem update_book_replaces_witness:
  "answers 1 sample_db
   \<and> snd (UpdateBook sample_db \<lparr>ID = 9, Title = ''Nine'', HasSales = True\<rparr>) = None
   \<and> committed (fst (UpdateBook sample_db \<lparr>ID = 9, Title = ''Nine'', HasSales = True\<rparr>)) = committed sample_db
   \<and> rows (committed (fst (UpdateBook sample_db \<lparr>ID = 2, Title = ''Two'', HasSales = True\<rparr>))) =
       sample_books [1 := \<lparr>ID = 2, Title = ''Two'', HasSales = True\<rparr>]"
proof -
  have a: "answers 1 sample_db" by (simp add: answers_def sample_db_def)
  have n: "\<forall>r \<in> set (rows (committed sample_db)). ID r \<noteq> ID \<lparr>ID = 9, Title = ''Nine'', HasSales = True\<rparr>"
    by (simp add: sample_db_def sample_books_def)
  from update_book_replaces [of sample_db "\<lparr>ID = 9, Title = ''Nine'', HasSales = True\<rparr>"] a n
  have "snd (UpdateBook sample_db \<lparr>ID = 9, Title = ''Nine'', HasSales = True\<rparr>) = None
   \<and> committed (fst (UpdateBook sample_db \<lparr>ID = 9, Title = ''Nine'', HasSales = True\<rparr>)) = committed sample_db"
    by blast
  moreover from update_book_replaces [of sample_db "\<lparr>ID = 2, Title = ''Two'', HasSales = True\<rparr>"] a
  have "rows (committed (fst (UpdateBook sample_db \<lparr>ID = 2, Title = ''Two'', HasSales = True\<rparr>))) =
       sample_books [1 := \<lparr>ID = 2, Title = ''Two'', HasSales = True\<rparr>]"
    by (simp add: sample_db_def sample_books_def)
  ultimately show ?thesis using a by simp
qed

text \<open>
  The sequence entry of the table never decreases, whatever the repository does and
  whether the store answers or fails; it is 7 on the sample data, and 0 or more from
  there on.
\<close>

lemma exec_stmt_autoinc:
  "exec_stmt st args t = Inr (t', out) \<Longrightarrow> autoinc t \<le> autoinc t'"
  by (induction st args t rule: exec_stmt.induct)
     (auto simp: new_rowid_def split: option.splits list.splits sqlval.splits if_splits prod.splits)

lemma ExecContext_autoinc:
  "autoinc (committed db) \<le> autoinc (committed (fst (ExecContext db q args)))"
  by (auto simp: ExecContext_def next_fault_def issue_def
      split: list.splits option.splits sum.splits dest: exec_stmt_autoinc)

lemma repository_autoinc:
  "autoinc (committed db) \<le> autoinc (committed (fst (GetBook db i)))"
  "autoinc (committed db) \<le> autoinc (committed (fst (ListBooks db limit offset s f)))"
  "autoinc (committed db) \<le> autoinc (committed (fst (UpdateBook db book)))"
  "autoinc (committed db) \<le> autoinc (committed (fst (BulkUpdateBooksSalesStatus db ids status)))"
  "autoinc (committed db) \<le> autoinc (committed (fst (CreateBook db book)))"
  "autoinc (committed db) \<le> autoinc (committed (fst (DeleteBooks db ids)))"
  "autoinc (committed db) \<le> autoinc (committed (fst (BulkUpdateBooks db bs)))"
proof -
  show "autoinc (committed db) \<le> autoinc (committed (fst (GetBook db i)))"
    using ExecContext_autoinc [of db "''SELECT id, title, has_sales FROM books WHERE id = ?''" "[VInt i]"]
    by (auto simp: GetBook_def QueryRowContext_def split: prod.splits sum.splits)
  show "autoinc (committed db) \<le> autoinc (committed (fst (ListBooks db limit offset s f)))"
    using ListBooks_result(3) [of s f _ db limit offset] where_pred_total [of s f] by auto
  show "autoinc (committed db) \<le> autoinc (committed (fst (UpdateBook db book)))"
    using ExecContext_autoinc [of db "''UPDATE books SET title = ?, has_sales = ? WHERE id = ?''"
        "[VText (Title book), VBool (HasSales book), VInt (ID book)]"]
    by (auto simp: UpdateBook_def split: prod.splits sum.splits)
  show "autoinc (committed db) \<le> autoinc (committed (fst (BulkUpdateBooksSalesStatus db ids status)))"
    using ExecContext_autoinc [of db "salesStatusQuery ids" "salesStatusArgs ids status"]
    by (auto simp: BulkUpdateBooksSalesStatus_def split: prod.splits sum.splits)
  show "autoinc (committed db) \<le> autoinc (committed (fst (CreateBook db book)))"
    using ExecContext_autoinc [of db "''INSERT INTO books (title, has_sales) VALUES (?, ?)''"
        "[VText (Title book), VBool (HasSales book)]"]
    by (auto simp: CreateBook_def split: prod.splits sum.splits)
  show "autoinc (committed db) \<le> autoinc (committed (fst (DeleteBooks db ids)))"
    using ExecContext_autoinc [of db "deleteQuery ids" "deleteArgs ids"]
    by (auto simp: DeleteBooks_def split: prod.splits sum.splits)
  show "autoinc (committed db) \<le> autoinc (committed (fst (BulkUpdateBooks db bs)))"
    using BulkUpdateBooks_run(2) [of db bs] by simp
qed

text \<open>
  Claim C9. For every book, whatever its title and has-sales flag: when the store
  answers and the table is not full, \<^verbatim>\<open>CreateBook\<close> returns the book with an
  identifier above 0, and \<^verbatim>\<open>GetBook\<close> on that identifier returns a book with that
  identifier and the title and has-sales flag that were passed in. (The sequence entry
  of the table starts at 0 and only grows, hence the assumption on it.)
\<close>

theorem create_then_get:
  "answers 2 db \<and> 0 \<le> autoinc (committed db) \<and> new_rowid (committed db) < 2 ^ 63 \<longrightarrow>
     (\<exists>db1 created. CreateBook db book = (db1, Inr created)
        \<and> 0 < ID created
        \<and> snd (GetBook db1 (ID created)) =
            Inr \<lparr>ID = ID created, Title = Title book, HasSales = HasSales book\<rparr>)"
proof
  assume h: "answers 2 db \<and> 0 \<le> autoinc (committed db) \<and> new_rowid (committed db) < 2 ^ 63"
  let ?q = "''INSERT INTO books (title, has_sales) VALUES (?, ?)''"
  let ?args = "[VText (Title book), VBool (HasSales book)]"
  let ?t = "\<lparr>rows = rows (committed db) @ [\<lparr>ID = new_rowid (committed db), Title = Title book, HasSales = HasSales book\<rparr>],
             autoinc = new_rowid (committed db)\<rparr>"
  from h have a1: "answers (Suc 0) db" by (simp add: answers_2D)
  from h have e: "exec_stmt InsertBook ?args (committed db) = Inr (?t, Changed 1 (new_rowid (committed db)))"
    by simp
  note ok = ExecContext_ok [OF a1 compile_simple(3) e]
  obtain db1 r where ex: "ExecContext db ?q ?args = (db1, r)" by (cases "ExecContext db ?q ?args")
  with ok have r: "r = Inr (Changed 1 (new_rowid (committed db)))" by simp
  let ?created = "book\<lparr>ID := new_rowid (committed db)\<rparr>"
  from ex r have c: "CreateBook db book = (db1, Inr ?created)" by (simp add: CreateBook_def)
  have "faults db1 = tl (faults db)" using ExecContext_frame(2) [of db ?q ?args] ex by simp
  with h have a2: "answers (Suc 0) db1" using answers_2D(2) [of db db1] by blast
  from h have pos: "0 < ID ?created" by (simp add: new_rowid_pos)
  from get_created_book [OF c a2] c pos
  show "\<exists>db1 created. CreateBook db book = (db1, Inr created)
        \<and> 0 < ID created
        \<and> snd (GetBook db1 (ID created)) =
            Inr \<lparr>ID = ID created, Title = Title book, HasSales = HasSales book\<rparr>"
    by blast
qed

lemma new_rowid_sample: "new_rowid (committed sample_db) = 8"
  by (simp add: new_rowid_def sample_db_def sample_books_def)

theorem create_then_get_witness:
  "answers 2 sample_db \<and> 0 \<le> autoinc (committed sample_db) \<and> new_rowid (committed sample_db) < 2 ^ 63
   \<and> (\<exists>db1 created. CreateBook sample_db \<lparr>ID = 0, Title = ''X'', HasSales = False\<rparr> = (db1, Inr created)
        \<and> 0 < ID created
        \<and> snd (GetBook db1 (ID created)) = Inr \<lparr>ID = ID created, Title = ''X'', HasSales = False\<rparr>)"
proof -
  have h: "answers 2 sample_db \<and> 0 \<le> autoinc (committed sample_db) \<and> new_rowid (committed sample_db) < 2 ^ 63"
    unfolding new_rowid_sample by (simp add: answers_def sample_db_def)
  with create_then_get [of sample_db "\<lparr>ID = 0, Title = ''X'', HasSales = False\<rparr>"]
  show ?thesis by simp
qed

lemma first_fault_replicate: "first_fault (replicate k None @ Some e # rest) = Some e"
  by (induction k) simp_all

text \<open>
  Claim C1. \<^verbatim>\<open>BulkUpdateBooks\<close> makes one call to begin, one to prepare, one per
  book and one to commit. It returns the first failure among these calls, and no error
  if there is none. Without a failure the committed table has the title and has-sales
  flag of every book of the batch replaced, in order; with a failure, whichever call
  it hits, the committed table is exactly what it was, so no part of the batch is
  applied. In particular a failure at the update of any single row is returned to the
  caller with the table unchanged. The transaction is closed on return.
\<close>

theorem bulk_update_books_atomic:
  "snd (BulkUpdateBooks db bs) = first_fault (take (length bs + 3) (faults db))
   \<and> (snd (BulkUpdateBooks db bs) = None \<longrightarrow>
        committed (fst (BulkUpdateBooks db bs)) =
          (committed db)\<lparr>rows :=
             foldl (\<lambda>rs b. map (\<lambda>r. if ID r = ID b
                                     then r\<lparr>Title := Title b, HasSales := HasSales b\<rparr> else r) rs)
               (rows (committed db)) bs\<rparr>)
   \<and> (snd (BulkUpdateBooks db bs) \<noteq> None \<longrightarrow>
        committed (fst (BulkUpdateBooks db bs)) = committed db)
   \<and> (\<forall>i e. i < length bs \<and> take (i + 3) (faults db) = replicate (i + 2) None @ [Some e] \<longrightarrow>
        snd (BulkUpdateBooks db bs) = Some e
        \<and> committed (fst (BulkUpdateBooks db bs)) = committed db)
   \<and> (pending db = None \<longrightarrow> pending (fst (BulkUpdateBooks db bs)) = None)"
proof -
  note run = BulkUpdateBooks_run [of db bs]
  have row: "snd (BulkUpdateBooks db bs) = Some e
        \<and> committed (fst (BulkUpdateBooks db bs)) = committed db"
    if "i < length bs" and t: "take (i + 3) (faults db) = replicate (i + 2) None @ [Some e]" for i e
  proof -
    from that(1) have "length bs + 3 = (i + 3) + (length bs - i)" by simp
    then have "first_fault (take (length bs + 3) (faults db)) =
        (case first_fault (take (i + 3) (faults db)) of Some e \<Rightarrow> Some e
         | None \<Rightarrow> first_fault (take (length bs - i) (drop (i + 3) (faults db))))"
      by (simp only: first_fault_take_add)
    also have "\<dots> = Some e" unfolding t by (simp add: first_fault_replicate)
    finally show ?thesis using run(1,2) by simp
  qed
  show ?thesis
  proof (intro conjI allI impI)
    show "snd (BulkUpdateBooks db bs) = first_fault (take (length bs + 3) (faults db))"
      by (rule run(1))
  next
    assume "snd (BulkUpdateBooks db bs) = None"
    with run(1,2) show "committed (fst (BulkUpdateBooks db bs)) =
          (committed db)\<lparr>rows :=
             foldl (\<lambda>rs b. map (\<lambda>r. if ID r = ID b
                                     then r\<lparr>Title := Title b, HasSales := HasSales b\<rparr> else r) rs)
               (rows (committed db)) bs\<rparr>"
      by simp
  next
    assume "snd (BulkUpdateBooks db bs) \<noteq> None"
    with run(1,2) show "committed (fst (BulkUpdateBooks db bs)) = committed db" by auto
  next
    fix i e
    assume "i < length bs \<and> take (i + 3) (faults db) = replicate (i + 2) None @ [Some e]"
    with row [of i e] show "snd (BulkUpdateBooks db bs) = Some e"
      and "committed (fst (BulkUpdateBooks db bs)) = committed db" by simp_all
  next
    assume "pending db = None"
    then show "pending (fst (BulkUpdateBooks db bs)) = None" by (rule run(3))
  qed
qed

theorem bulk_update_books_atomic_witness:
  "snd (BulkUpdateBooks (sample_db\<lparr>faults := [None, None, None, Some (ErrDriver 5)]\<rparr>)
         [\<lparr>ID = 1, Title = ''One'', HasSales = False\<rparr>, \<lparr>ID = 2, Title = ''Two'', HasSales = True\<rparr>])
     = Some (ErrDriver 5)
   \<and> committed (fst (BulkUpdateBooks (sample_db\<lparr>faults := [None, None, None, Some (ErrDriver 5)]\<rparr>)
         [\<lparr>ID = 1, Title = ''One'', HasSales = False\<rparr>, \<lparr>ID = 2, Title = ''Two'', HasSales = True\<rparr>]))
     = committed sample_db
   \<and> snd (BulkUpdateBooks sample_db
         [\<lparr>ID = 1, Title = ''One'', HasSales = False\<rparr>, \<lparr>ID = 9, Title = ''Nine'', HasSales = True\<rparr>])
     = None
   \<and> rows (committed (fst (BulkUpdateBooks sample_db
         [\<lparr>ID = 1, Title = ''One'', HasSales = False\<rparr>, \<lparr>ID = 9, Title = ''Nine'', HasSales = True\<rparr>])))
     = sample_books [0 := \<lparr>ID = 1, Title = ''One'', HasSales = False\<rparr>]"
  using bulk_update_books_atomic [of "sample_db\<lparr>faults := [None, None, None, Some (ErrDriver 5)]\<rparr>"
      "[\<lparr>ID = 1, Title = ''One'', HasSales = False\<rparr>, \<lparr>ID = 2, Title = ''Two'', HasSales = True\<rparr>]"]
    bulk_update_books_atomic [of sample_db
      "[\<lparr>ID = 1, Title = ''One'', HasSales = False\<rparr>, \<lparr>ID = 9, Title = ''Nine'', HasSales = True\<rparr>]"]
  by (simp add: sample_db_def sample_books_def)

text \<open>
  Claim C3, as the code has it. For a non-empty list of \<open>N\<close> identifiers, the
  statements of \<^verbatim>\<open>BulkUpdateBooksSalesStatus\<close> and \<^verbatim>\<open>DeleteBooks\<close> carry an \<open>IN\<close>
  list of exactly \<open>N\<close> placeholders; the statement text depends on \<open>N\<close> only, never
  on the identifiers; each function issues that one statement with every identifier
  bound as an argument, in order. When the store answers and the statement has at most
  32766 placeholders (\<open>N \<le> 32765\<close> for the update, which binds the status too, and
  \<open>N \<le> 32766\<close> for the delete), the update sets the flag of exactly the rows whose
  identifier is in the list, and the delete removes exactly those rows. The bound is
  needed: the functions put the whole list into one statement, SQLite refuses a
  statement with more placeholders, and then the function returns that error and no
  row changes.
\<close>

theorem in_list_statements:
  "ids \<noteq> [] \<longrightarrow>
     parse_stmt (salesStatusQuery ids) = Some (UpdateSalesIn (length ids))
   \<and> parse_stmt (deleteQuery ids) = Some (DeleteIn (length ids))
   \<and> placeholders (salesStatusQuery ids) = 1 + length ids
   \<and> placeholders (deleteQuery ids) = length ids
   \<and> (\<forall>ids'. length ids' = length ids \<longrightarrow>
         salesStatusQuery ids' = salesStatusQuery ids \<and> deleteQuery ids' = deleteQuery ids)
   \<and> issued (fst (BulkUpdateBooksSalesStatus db ids status)) =
       issued db @ [(salesStatusQuery ids, VBool status # map VInt ids)]
   \<and> issued (fst (DeleteBooks db ids)) = issued db @ [(deleteQuery ids, map VInt ids)]
   \<and> (answers 1 db \<and> length ids \<le> 32765 \<longrightarrow>
         snd (BulkUpdateBooksSalesStatus db ids status) = None
       \<and> rows (committed (fst (BulkUpdateBooksSalesStatus db ids status))) =
           map (\<lambda>r. if ID r \<in> set ids then r\<lparr>HasSales := status\<rparr> else r) (rows (committed db)))
   \<and> (answers 1 db \<and> length ids \<le> 32766 \<longrightarrow>
         snd (DeleteBooks db ids) = None
       \<and> rows (committed (fst (DeleteBooks db ids))) =
           filter (\<lambda>r. ID r \<notin> set ids) (rows (committed db)))
   \<and> (answers 1 db \<and> 32765 < length ids \<longrightarrow>
         snd (BulkUpdateBooksSalesStatus db ids status) = Some ErrTooManyVariables
       \<and> committed (fst (BulkUpdateBooksSalesStatus db ids status)) = committed db)
   \<and> (answers 1 db \<and> 32766 < length ids \<longrightarrow>
         snd (DeleteBooks db ids) = Some ErrTooManyVariables
       \<and> committed (fst (DeleteBooks db ids)) = committed db)"
proof
  assume ne: "ids \<noteq> []"
  then have n: "Suc (length ids - 1) = length ids" by (cases ids) simp_all
  have p1: "parse_stmt (salesStatusQuery ids) = Some (UpdateSalesIn (length ids))"
    using parse_salesStatusQuery [of ids] n by simp
  have p2: "parse_stmt (deleteQuery ids) = Some (DeleteIn (length ids))"
    using parse_deleteQuery [of ids] n by simp
  have eff1: "snd (BulkUpdateBooksSalesStatus db ids status) = None
       \<and> rows (committed (fst (BulkUpdateBooksSalesStatus db ids status))) =
           map (\<lambda>r. if ID r \<in> set ids then r\<lparr>HasSales := status\<rparr> else r) (rows (committed db))"
    if "answers 1 db \<and> length ids \<le> 32765"
    using that sales_status_effect(1,2) [OF ne, of db status] by simp
  have eff2: "snd (DeleteBooks db ids) = None
       \<and> rows (committed (fst (DeleteBooks db ids))) =
           filter (\<lambda>r. ID r \<notin> set ids) (rows (committed db))"
    if "answers 1 db \<and> length ids \<le> 32766"
    using that delete_effect(1,2) [OF ne, of db] by simp
  have ref1: "snd (BulkUpdateBooksSalesStatus db ids status) = Some ErrTooManyVariables
       \<and> committed (fst (BulkUpdateBooksSalesStatus db ids status)) = committed db"
    if "answers 1 db \<and> 32765 < length ids"
    using that sales_status_refused [of ids db status] by simp
  have ref2: "snd (DeleteBooks db ids) = Some ErrTooManyVariables
       \<and> committed (fst (DeleteBooks db ids)) = committed db"
    if "answers 1 db \<and> 32766 < length ids"
    using that delete_refused [of ids db] by simp
  have same: "\<forall>ids'. length ids' = length ids \<longrightarrow>
         salesStatusQuery ids' = salesStatusQuery ids \<and> deleteQuery ids' = deleteQuery ids"
  proof (intro allI impI)
    fix ids' :: "int list"
    assume "length ids' = length ids"
    from in_list_text [OF this]
    show "salesStatusQuery ids' = salesStatusQuery ids \<and> deleteQuery ids' = deleteQuery ids" .
  qed
  have ph1: "placeholders (salesStatusQuery ids) = 1 + length ids"
    using placeholders_salesStatusQuery [OF ne] by simp
  note ph2 = placeholders_deleteQuery [OF ne]
  note is1 = in_list_issued(1) [OF ne, of db status]
  note is2 = in_list_issued(2) [OF ne, of db]
  from p1 p2 ph1 ph2 same is1 is2 eff1 eff2 ref1 ref2
  show "parse_stmt (salesStatusQuery ids) = Some (UpdateSalesIn (length ids))
   \<and> parse_stmt (deleteQuery ids) = Some (DeleteIn (length ids))
   \<and> placeholders (salesStatusQuery ids) = 1 + length ids
   \<and> placeholders (deleteQuery ids) = length ids
   \<and> (\<forall>ids'. length ids' = length ids \<longrightarrow>
         salesStatusQuery ids' = salesStatusQuery ids \<and> deleteQuery ids' = deleteQuery ids)
   \<and> issued (fst (BulkUpdateBooksSalesStatus db ids status)) =
       issued db @ [(salesStatusQuery ids, VBool status # map VInt ids)]
   \<and> issued (fst (DeleteBooks db ids)) = issued db @ [(deleteQuery ids, map VInt ids)]
   \<and> (answers 1 db \<and> length ids \<le> 32765 \<longrightarrow>
         snd (BulkUpdateBooksSalesStatus db ids status) = None
       \<and> rows (committed (fst (BulkUpdateBooksSalesStatus db ids status))) =
           map (\<lambda>r. if ID r \<in> set ids then r\<lparr>HasSales := status\<rparr> else r) (rows (committed db)))
   \<and> (answers 1 db \<and> length ids \<le> 32766 \<longrightarrow>
         snd (DeleteBooks db ids) = None
       \<and> rows (committed (fst (DeleteBooks db ids))) =
           filter (\<lambda>r. ID r \<notin> set ids) (rows (committed db)))
   \<and> (answers 1 db \<and> 32765 < length ids \<longrightarrow>
         snd (BulkUpdateBooksSalesStatus db ids status) = Some ErrTooManyVariables
       \<and> committed (fst (BulkUpdateBooksSalesStatus db ids status)) = committed db)
   \<and> (answers 1 db \<and> 32766 < length ids \<longrightarrow>
         snd (DeleteBooks db ids) = Some ErrTooManyVariables
       \<and> committed (fst (DeleteBooks db ids)) = committed db)"
    by blast
qed

theorem in_list_statements_witness:
  "[3, 1, 8] \<noteq> ([] :: int list) \<and> answers 1 sample_db \<and> length [3, 1, 8 :: int] \<le> 32765
   \<and> salesStatusQuery [3, 1, 8] = ''UPDATE books SET has_sales = ? WHERE id IN (?,?,?)''
   \<and> deleteQuery [3, 1, 8] = ''DELETE FROM books WHERE id IN (?,?,?)''
   \<and> placeholders (deleteQuery [3, 1, 8]) = 3
   \<and> issued (fst (DeleteBooks sample_db [3, 1, 8])) =
        [(''DELETE FROM books WHERE id IN (?,?,?)'', [VInt 3, VInt 1, VInt 8])]
   \<and> map ID (rows (committed (fst (DeleteBooks sample_db [3, 1, 8])))) = [2, 4, 5, 6, 7]
   \<and> map HasSales (rows (committed (fst (BulkUpdateBooksSalesStatus sample_db [3, 1, 8] True))))
        = [True, False, True, False, False, False, False]"
proof -
  have a: "answers 1 sample_db" by (simp add: answers_def sample_db_def)
  have q: "salesStatusQuery [3, 1, 8] = ''UPDATE books SET has_sales = ? WHERE id IN (?,?,?)''"
    "deleteQuery [3, 1, 8] = ''DELETE FROM books WHERE id IN (?,?,?)''"
    by (simp_all add: salesStatusQuery_def deleteQuery_def Repeat_def numeral_2_eq_2)
  from in_list_statements [of "[3, 1, 8]" sample_db True] a q show ?thesis
    by (simp add: sample_db_def sample_books_def)
qed

text \<open>
  Without the bound no row is affected. On the sample data, with a store that answers:
  \<^verbatim>\<open>DeleteBooks\<close> with 32767 identifiers, each of them 1, returns the error of the
  store and the book with identifier 1 is still in the table; and
  \<^verbatim>\<open>BulkUpdateBooksSalesStatus\<close> with 32766 identifiers, each of them 1, and status
  false returns the same error and the book with identifier 1 keeps its flag.
\<close>

theorem in_list_statements_counterexample:
  "replicate 32767 (1::int) \<noteq> [] \<and> replicate 32766 (1::int) \<noteq> [] \<and> answers 1 sample_db
   \<and> snd (DeleteBooks sample_db (replicate 32767 1)) = Some ErrTooManyVariables
   \<and> rows (committed (fst (DeleteBooks sample_db (replicate 32767 1)))) = sample_books
   \<and> filter (\<lambda>r. ID r \<notin> set (replicate 32767 1)) (rows (committed sample_db)) \<noteq> sample_books
   \<and> snd (BulkUpdateBooksSalesStatus sample_db (replicate 32766 1) False)
       = Some ErrTooManyVariables
   \<and> rows (committed (fst (BulkUpdateBooksSalesStatus sample_db (replicate 32766 1) False)))
       = sample_books
   \<and> map (\<lambda>r. if ID r \<in> set (replicate 32766 1) then r\<lparr>HasSales := False\<rparr> else r)
         (rows (committed sample_db)) \<noteq> sample_books"
proof -
  define d where "d = replicate 32767 (1::int)"
  define u where "u = replicate 32766 (1::int)"
  have ld: "length d = 32767" and lu: "length u = 32766"
    unfolding d_def u_def by (simp_all only: length_replicate)
  have sd: "set d = {1}" and su: "set u = {1}"
    unfolding d_def u_def by (simp_all only: set_replicate_conv_if) simp_all
  from ld lu have ne: "d \<noteq> []" "u \<noteq> []" by auto
  have a: "answers (Suc 0) sample_db" by (simp add: answers_def sample_db_def)
  have c: "committed sample_db = \<lparr>rows = sample_books, autoinc = 7\<rparr>" by (simp add: sample_db_def)
  have 1: "snd (DeleteBooks sample_db d) = Some ErrTooManyVariables"
    "rows (committed (fst (DeleteBooks sample_db d))) = sample_books"
    using delete_refused [of d sample_db] ld a c by simp_all
  have 2: "snd (BulkUpdateBooksSalesStatus sample_db u False) = Some ErrTooManyVariables"
    "rows (committed (fst (BulkUpdateBooksSalesStatus sample_db u False))) = sample_books"
    using sales_status_refused [of u sample_db False] lu a c by simp_all
  have 3: "filter (\<lambda>r. ID r \<notin> set d) (rows (committed sample_db)) \<noteq> sample_books"
    unfolding sd c by (simp add: sample_books_def)
  have 4: "map (\<lambda>r. if ID r \<in> set u then r\<lparr>HasSales := False\<rparr> else r)
         (rows (committed sample_db)) \<noteq> sample_books"
    unfolding su c by (simp add: sample_books_def)
  from 1 2 3 4 ne a show ?thesis unfolding d_def [symmetric] u_def [symmetric] by simp
qed

text \<open>
  Claim C4. The predicate that the store reads from the \<open>WHERE\<close> text and arguments
  of \<^verbatim>\<open>ListBooks\<close>: a non-empty search requires the title to match the search text
  wrapped in \<open>%\<close> on both sides; token \<open>on_sale\<close> requires the has-sales flag, token
  \<open>not_on_sale\<close> requires its absence, and every other token requires nothing; the
  requirements are joined by \<open>AND\<close>; an empty search adds no requirement on the
  title, and with neither there is no \<open>WHERE\<close> at all. The search text travels as an
  argument, never inside the statement text.
\<close>

theorem query_builder_predicate:
  "where_pred s f =
     Some (\<lambda>r. (s \<noteq> [] \<longrightarrow> sql_like (''%'' @ s @ ''%'') (Title r))
              \<and> (f = ''on_sale'' \<longrightarrow> HasSales r)
              \<and> (f = ''not_on_sale'' \<longrightarrow> \<not> HasSales r))
   \<and> (s = [] \<and> f \<noteq> ''on_sale'' \<and> f \<noteq> ''not_on_sale'' \<longrightarrow> whereStr s f = [] \<and> whereArgs s = [])
   \<and> (s \<noteq> [] \<longrightarrow> whereStr s ''on_sale'' = '' WHERE title LIKE ? AND has_sales = 1''
                 \<and> whereStr s ''not_on_sale'' = '' WHERE title LIKE ? AND has_sales = 0''
                 \<and> whereStr s ''all'' = '' WHERE title LIKE ?''
                 \<and> whereArgs s = [VText (''%'' @ s @ ''%'')])
   \<and> whereStr [] ''on_sale'' = '' WHERE has_sales = 1''
   \<and> whereStr [] ''not_on_sale'' = '' WHERE has_sales = 0''
   \<and> whereArgs [] = []"
proof (intro conjI impI)
  show "where_pred s f =
     Some (\<lambda>r. (s \<noteq> [] \<longrightarrow> sql_like (''%'' @ s @ ''%'') (Title r))
              \<and> (f = ''on_sale'' \<longrightarrow> HasSales r)
              \<and> (f = ''not_on_sale'' \<longrightarrow> \<not> HasSales r))"
    by (rule where_pred_eq)
qed (simp_all add: whereStr_def whereClauses_def whereArgs_def)

theorem query_builder_predicate_witness:
  "\<exists>p. where_pred ''Bet'' ''not_on_sale'' = Some p
     \<and> p \<lparr>ID = 2, Title = ''Beta'', HasSales = False\<rparr>
     \<and> \<not> p \<lparr>ID = 1, Title = ''Alpha'', HasSales = True\<rparr>
     \<and> \<not> p \<lparr>ID = 3, Title = ''Alphabet'', HasSales = True\<rparr>"
proof -
  from query_builder_predicate [of "''Bet''" "''not_on_sale''"]
  have "where_pred ''Bet'' ''not_on_sale'' =
     Some (\<lambda>r. sql_like (''%'' @ ''Bet'' @ ''%'') (Title r) \<and> \<not> HasSales r)"
    by simp
  moreover have "sql_like (''%'' @ ''Bet'' @ ''%'') ''Beta''"
    by (simp add: ascii_lower_def)
  ultimately show ?thesis by simp
qed

end
